theory Spec2Isabelle
  imports Main
begin

section \<open>Tokens (lexer/tokens.ts)\<close>

text \<open>
  The enum \<open>TokenType\<close>. The last constructor, \<open>INHERITED\<close>, is not a member of the
  enum: it stands for the value that the lookup \<open>KEYWORDS[name]\<close> yields when \<open>name\<close> is
  a property that the object literal \<open>KEYWORDS\<close> inherits from \<open>Object.prototype\<close>
  (see \<open>keyword_lookup\<close> below). That value is truthy and equal to no member of the enum.
\<close>

datatype TokenType =
    NUMBER | STRING | COLOR | IDENTIFIER
  | LET | FN | RETURN | IF | ELSE | REPEAT | ANIMATE | SCENE
  | CIRCLE | RECT | LINE | TRIANGLE
  | MOVE | ROTATE | SCALE | FADE
  | UP | DOWN | LEFT | RIGHT
  | AT | SIZE | WIDTH | HEIGHT | COLOR_PROP | SPEED
  | PLUS | MINUS | MULTIPLY | DIVIDE | MODULO | ASSIGN
  | EQUAL | NOT_EQUAL | LESS_THAN | GREATER_THAN | LESS_EQUAL | GREATER_EQUAL
  | LPAREN | RPAREN | LBRACE | RBRACE | COMMA | DOT | NEWLINE
  | EOF | ILLEGAL
  | INHERITED

record Token =
  tok_type :: TokenType
  tok_value :: string
  tok_line :: nat
  tok_column :: nat

definition mkToken :: "TokenType \<Rightarrow> string \<Rightarrow> nat \<Rightarrow> nat \<Rightarrow> Token" where
  "mkToken t v l c = \<lparr>tok_type = t, tok_value = v, tok_line = l, tok_column = c\<rparr>"

definition KEYWORDS :: "(string \<times> TokenType) list" where
  "KEYWORDS =
    [(''let'', LET), (''fn'', FN), (''return'', RETURN), (''if'', IF), (''else'', ELSE),
     (''repeat'', REPEAT), (''animate'', ANIMATE), (''scene'', SCENE),
     (''circle'', CIRCLE), (''rect'', RECT), (''line'', LINE), (''triangle'', TRIANGLE),
     (''move'', MOVE), (''rotate'', ROTATE), (''scale'', SCALE), (''fade'', FADE),
     (''up'', UP), (''down'', DOWN), (''left'', LEFT), (''right'', RIGHT),
     (''at'', AT), (''size'', SIZE), (''width'', WIDTH), (''height'', HEIGHT),
     (''color'', COLOR_PROP), (''speed'', SPEED)]"

text \<open>
  The names every object literal inherits from \<open>Object.prototype\<close>. An indexed read
  \<open>obj[name]\<close> of such a name yields the inherited member, which is truthy, whether or
  not \<open>obj\<close> has a property of its own under that name.
\<close>

definition object_prototype_keys :: "string list" where
  "object_prototype_keys =
    [''constructor'', ''__proto__'', ''hasOwnProperty'', ''isPrototypeOf'',
     ''propertyIsEnumerable'', ''toLocaleString'', ''toString'', ''valueOf'',
     ''__defineGetter__'', ''__defineSetter__'', ''__lookupGetter__'', ''__lookupSetter__'']"

text \<open>\<open>KEYWORDS[name] || TokenType.IDENTIFIER\<close>\<close>

definition keyword_lookup :: "string \<Rightarrow> TokenType" where
  "keyword_lookup name =
    (case map_of KEYWORDS name of
       Some t \<Rightarrow> t
     | None \<Rightarrow> if name \<in> set object_prototype_keys then INHERITED else IDENTIFIER)"

section \<open>Lexer (lexer/lexer.ts)\<close>

text \<open>
  The scanner's fields. \<open>rest\<close> is the input from \<open>position\<close> on, so that
  \<open>currentChar\<close> is its head (\<open>null\<close> when it is empty) and \<open>peek()\<close> its second
  character. Characters are the 8-bit characters of HOL; the scanner only ever compares
  a character with ASCII characters.
\<close>

record Lexer =
  rest :: string
  line :: nat
  column :: nat

definition newLexer :: "string \<Rightarrow> Lexer" where
  "newLexer inp = \<lparr>rest = inp, line = 1, column = 1\<rparr>"

definition currentChar :: "Lexer \<Rightarrow> char option" where
  "currentChar s = (case rest s of [] \<Rightarrow> None | c # _ \<Rightarrow> Some c)"

definition peek_char :: "Lexer \<Rightarrow> char option" where
  "peek_char s = (case rest s of c # d # _ \<Rightarrow> Some d | _ \<Rightarrow> None)"

definition advance :: "Lexer \<Rightarrow> Lexer" where
  "advance s =
    (case rest s of
       [] \<Rightarrow> s\<lparr>column := column s + 1\<rparr>
     | _ # r \<Rightarrow>
        (case r of
           [] \<Rightarrow> s\<lparr>rest := r, column := column s + 1\<rparr>
         | c # _ \<Rightarrow>
            if c = CHR 0x0A then s\<lparr>rest := r, line := line s + 1, column := 1\<rparr>
            else s\<lparr>rest := r, column := column s + 1\<rparr>))"

definition is_space :: "char \<Rightarrow> bool" where
  "is_space c \<longleftrightarrow> c = CHR '' '' \<or> c = CHR 0x09 \<or> c = CHR 0x0D"

definition is_digit :: "char \<Rightarrow> bool" where
  "is_digit c \<longleftrightarrow> c \<in> set ''0123456789''"

definition is_hex :: "char \<Rightarrow> bool" where
  "is_hex c \<longleftrightarrow> c \<in> set ''0123456789ABCDEFabcdef''"

definition is_alpha :: "char \<Rightarrow> bool" where
  "is_alpha c \<longleftrightarrow>
     c \<in> set ''abcdefghijklmnopqrstuvwxyzABCDEFGHIJKLMNOPQRSTUVWXYZ_''"

definition is_alnum :: "char \<Rightarrow> bool" where
  "is_alnum c \<longleftrightarrow> is_alpha c \<or> is_digit c"

definition toLowerCase_char :: "char \<Rightarrow> char" where
  "toLowerCase_char c =
    (case map_of (zip ''ABCDEFGHIJKLMNOPQRSTUVWXYZ'' ''abcdefghijklmnopqrstuvwxyz'') c of
       Some l \<Rightarrow> l | None \<Rightarrow> c)"

definition toLowerCase :: "string \<Rightarrow> string" where
  "toLowerCase s = map toLowerCase_char s"

lemma advance_shorter:
  "rest s \<noteq> [] \<Longrightarrow> length (rest (advance s)) < length (rest s)"
  by (auto simp: advance_def split: list.splits)

lemma advance_rest: "rest (advance s) = tl (rest s)"
  by (auto simp: advance_def split: list.splits)

function skipWhitespace :: "Lexer \<Rightarrow> Lexer" where
  "skipWhitespace s =
    (case currentChar s of
       None \<Rightarrow> s
     | Some c \<Rightarrow> if is_space c then skipWhitespace (advance s) else s)"
  by pat_completeness auto
termination
  by (relation "measure (\<lambda>s. length (rest s))")
     (auto simp: currentChar_def advance_rest split: list.splits)

declare skipWhitespace.simps [simp del]

function skipComment_loop :: "Lexer \<Rightarrow> Lexer" where
  "skipComment_loop s =
    (case currentChar s of
       None \<Rightarrow> s
     | Some c \<Rightarrow> if c \<noteq> CHR 0x0A then skipComment_loop (advance s) else s)"
  by pat_completeness auto
termination
  by (relation "measure (\<lambda>s. length (rest s))")
     (auto simp: currentChar_def advance_rest split: list.splits)

declare skipComment_loop.simps [simp del]

definition skipComment :: "Lexer \<Rightarrow> Lexer" where
  "skipComment s =
    (let isComment = (currentChar s = Some CHR ''/'' \<and> peek_char s = Some CHR ''/'')
     in if \<not> isComment then s else skipComment_loop s)"

function readNumber_loop :: "Lexer \<Rightarrow> string \<Rightarrow> bool \<Rightarrow> Lexer \<times> string" where
  "readNumber_loop s numStr hasDot =
    (case currentChar s of
       None \<Rightarrow> (s, numStr)
     | Some c \<Rightarrow>
        if is_digit c \<or> c = CHR ''.'' then
          (if c = CHR ''.'' \<and> hasDot then (s, numStr)
           else readNumber_loop (advance s) (numStr @ [c]) (hasDot \<or> c = CHR ''.''))
        else (s, numStr))"
  by pat_completeness auto
termination
  by (relation "measure (\<lambda>(s, _, _). length (rest s))")
     (auto simp: currentChar_def advance_rest split: list.splits)

declare readNumber_loop.simps [simp del]

definition readNumber :: "Lexer \<Rightarrow> Token \<times> Lexer" where
  "readNumber s =
    (let startColumn = column s;
         (s', numStr) = readNumber_loop s [] False
     in (mkToken NUMBER numStr (line s') startColumn, s'))"

function readString_loop :: "Lexer \<Rightarrow> string \<Rightarrow> Lexer \<times> string" where
  "readString_loop s str =
    (case currentChar s of
       None \<Rightarrow> (s, str)
     | Some c \<Rightarrow>
        if c = CHR 0x22 then (s, str)
        else if c = CHR 0x5C \<and> peek_char s = Some CHR 0x22
          then readString_loop (advance (advance s)) (str @ [CHR 0x22])
          else readString_loop (advance s) (str @ [c]))"
  by pat_completeness auto
termination
  by (relation "measure (\<lambda>(s, _). length (rest s))")
     (auto simp: currentChar_def advance_rest split: list.splits)

declare readString_loop.simps [simp del]

definition readString :: "Lexer \<Rightarrow> Token \<times> Lexer" where
  "readString s =
    (let startColumn = column s;
         (s1, str) = readString_loop (advance s) [];
         s2 = (if currentChar s1 = Some CHR 0x22 then advance s1 else s1)
     in (mkToken STRING str (line s2) startColumn, s2))"

function readColor_loop :: "Lexer \<Rightarrow> string \<Rightarrow> Lexer \<times> string" where
  "readColor_loop s colorStr =
    (case currentChar s of
       None \<Rightarrow> (s, colorStr)
     | Some c \<Rightarrow>
        if is_hex c then readColor_loop (advance s) (colorStr @ [c]) else (s, colorStr))"
  by pat_completeness auto
termination
  by (relation "measure (\<lambda>(s, _). length (rest s))")
     (auto simp: currentChar_def advance_rest split: list.splits)

declare readColor_loop.simps [simp del]

definition readColor :: "Lexer \<Rightarrow> Token \<times> Lexer" where
  "readColor s =
    (let startColumn = column s;
         (s', colorStr) = readColor_loop (advance s) ''#''
     in (mkToken COLOR colorStr (line s') startColumn, s'))"

function readIdentifier_loop :: "Lexer \<Rightarrow> string \<Rightarrow> Lexer \<times> string" where
  "readIdentifier_loop s identifier =
    (case currentChar s of
       None \<Rightarrow> (s, identifier)
     | Some c \<Rightarrow>
        if is_alnum c then readIdentifier_loop (advance s) (identifier @ [c])
        else (s, identifier))"
  by pat_completeness auto
termination
  by (relation "measure (\<lambda>(s, _). length (rest s))")
     (auto simp: currentChar_def advance_rest split: list.splits)

declare readIdentifier_loop.simps [simp del]

definition readIdentifier :: "Lexer \<Rightarrow> Token \<times> Lexer" where
  "readIdentifier s =
    (let startColumn = column s;
         (s', identifier) = readIdentifier_loop s [];
         tokenType = keyword_lookup (toLowerCase identifier)
     in (mkToken tokenType identifier (line s') startColumn, s'))"

text \<open>
  The \<open>switch\<close> of \<open>nextToken\<close> on an operator or delimiter character: the scanner
  advances first (twice for a two-character operator), then builds the token with the
  line it has reached and the column it started from.
\<close>

definition two_char ::
  "Lexer \<Rightarrow> nat \<Rightarrow> TokenType \<Rightarrow> string \<Rightarrow> TokenType \<Rightarrow> string \<Rightarrow> Token \<times> Lexer" where
  "two_char s1 startColumn t2 v2 t1 v1 =
    (if currentChar s1 = Some CHR ''=''
     then (let s2 = advance s1 in (mkToken t2 v2 (line s2) startColumn, s2))
     else (mkToken t1 v1 (line s1) startColumn, s1))"

definition operator_token :: "Lexer \<Rightarrow> char \<Rightarrow> Token \<times> Lexer" where
  "operator_token s ch =
    (let startColumn = column s; s1 = advance s;
         single = (\<lambda>t. (mkToken t [ch] (line s1) startColumn, s1))
     in if ch = CHR ''+'' then single PLUS
        else if ch = CHR ''-'' then single MINUS
        else if ch = CHR ''*'' then single MULTIPLY
        else if ch = CHR ''/'' then single DIVIDE
        else if ch = CHR ''%'' then single MODULO
        else if ch = CHR ''='' then two_char s1 startColumn EQUAL ''=='' ASSIGN ''=''
        else if ch = CHR ''!'' then two_char s1 startColumn NOT_EQUAL ''!='' ILLEGAL ''!''
        else if ch = CHR ''<'' then two_char s1 startColumn LESS_EQUAL ''<='' LESS_THAN ''<''
        else if ch = CHR ''>'' then
          two_char s1 startColumn GREATER_EQUAL ''>='' GREATER_THAN ''>''
        else if ch = CHR ''('' then single LPAREN
        else if ch = CHR '')'' then single RPAREN
        else if ch = CHR ''{'' then single LBRACE
        else if ch = CHR ''}'' then single RBRACE
        else if ch = CHR '','' then single COMMA
        else if ch = CHR ''.'' then single DOT
        else single ILLEGAL)"

lemma skipWhitespace_le: "length (rest (skipWhitespace s)) \<le> length (rest s)"
proof (induction s rule: skipWhitespace.induct)
  case (1 s)
  show ?case
  proof (cases "rest s")
    case Nil
    then show ?thesis by (simp add: skipWhitespace.simps [of s] currentChar_def)
  next
    case (Cons c r)
    show ?thesis
    proof (cases "is_space c")
      case True
      with Cons 1 [of c] have "length (rest (skipWhitespace (advance s))) \<le> length (rest (advance s))"
        by (simp add: currentChar_def)
      moreover have "length (rest (advance s)) < length (rest s)"
        using Cons by (simp add: advance_rest)
      ultimately show ?thesis using Cons True
        by (simp add: skipWhitespace.simps [of s] currentChar_def)
    next
      case False
      with Cons show ?thesis by (simp add: skipWhitespace.simps [of s] currentChar_def)
    qed
  qed
qed

lemma skipComment_loop_le: "length (rest (skipComment_loop s)) \<le> length (rest s)"
proof (induction s rule: skipComment_loop.induct)
  case (1 s)
  show ?case
  proof (cases "rest s")
    case Nil
    then show ?thesis by (simp add: skipComment_loop.simps [of s] currentChar_def)
  next
    case (Cons c r)
    show ?thesis
    proof (cases "c \<noteq> CHR 0x0A")
      case True
      with Cons 1 [of c]
      have "length (rest (skipComment_loop (advance s))) \<le> length (rest (advance s))"
        by (simp add: currentChar_def)
      moreover have "length (rest (advance s)) < length (rest s)"
        using Cons by (simp add: advance_rest)
      ultimately show ?thesis using Cons True
        by (simp add: skipComment_loop.simps [of s] currentChar_def)
    next
      case False
      with Cons show ?thesis by (simp add: skipComment_loop.simps [of s] currentChar_def)
    qed
  qed
qed

lemma skipComment_shorter:
  assumes "currentChar s = Some CHR ''/''" and "peek_char s = Some CHR ''/''"
  shows "length (rest (skipComment s)) < length (rest s)"
proof -
  from assms(1) have ne: "rest s \<noteq> []" by (auto simp: currentChar_def)
  have "skipComment s = skipComment_loop (advance s)"
    using assms by (simp add: skipComment_def skipComment_loop.simps [of s])
  moreover have "length (rest (skipComment_loop (advance s))) \<le> length (rest (advance s))"
    by (rule skipComment_loop_le)
  moreover have "length (rest (advance s)) < length (rest s)"
    using ne by (rule advance_shorter)
  ultimately show ?thesis by simp
qed

function nextToken :: "Lexer \<Rightarrow> Token \<times> Lexer" where
  "nextToken s =
    (if currentChar s = None then (mkToken EOF [] (line s) (column s), s)
     else
       let s1 = skipWhitespace s in
       case currentChar s1 of
         None \<Rightarrow> (mkToken EOF [] (line s1) (column s1), s1)
       | Some c \<Rightarrow>
          if c = CHR ''/'' \<and> peek_char s1 = Some CHR ''/'' then nextToken (skipComment s1)
          else if c = CHR 0x0A then
            (mkToken NEWLINE [CHR 0x0A] (line s1) (column s1), advance s1)
          else if is_digit c then readNumber s1
          else if c = CHR 0x22 then readString s1
          else if c = CHR ''#'' then readColor s1
          else if is_alpha c then readIdentifier s1
          else operator_token s1 c)"
  by pat_completeness auto
termination
proof (relation "measure (\<lambda>s. length (rest s))", goal_cases)
  case 1
  show ?case by simp
next
  case (2 s s1 c)
  then have "length (rest (skipComment s1)) < length (rest s1)"
    by (intro skipComment_shorter) auto
  moreover have "length (rest s1) \<le> length (rest s)"
    using 2 by (simp add: skipWhitespace_le)
  ultimately show ?case by simp
qed

declare nextToken.simps [simp del]

lemma readNumber_loop_le:
  "length (rest (fst (readNumber_loop s numStr hasDot))) \<le> length (rest s)"
proof (induction s numStr hasDot rule: readNumber_loop.induct)
  case (1 s numStr hasDot)
  show ?case
  proof (cases "rest s")
    case Nil
    then show ?thesis by (simp add: readNumber_loop.simps [of s] currentChar_def)
  next
    case (Cons c r)
    have adv: "length (rest (advance s)) < length (rest s)"
      using Cons by (simp add: advance_rest)
    show ?thesis
    proof (cases "(is_digit c \<or> c = CHR ''.'') \<and> \<not> (c = CHR ''.'' \<and> hasDot)")
      case True
      with Cons 1 [of c]
      have "length (rest (fst (readNumber_loop (advance s) (numStr @ [c])
               (hasDot \<or> c = CHR ''.'')))) \<le> length (rest (advance s))"
        by (simp add: currentChar_def)
      with adv Cons True show ?thesis
        by (simp add: readNumber_loop.simps [of s] currentChar_def)
    next
      case False
      with Cons show ?thesis
        by (auto simp: readNumber_loop.simps [of s] currentChar_def)
    qed
  qed
qed

lemma readString_loop_le: "length (rest (fst (readString_loop s str))) \<le> length (rest s)"
proof (induction s str rule: readString_loop.induct)
  case (1 s str)
  show ?case
  proof (cases "rest s")
    case Nil
    then show ?thesis by (simp add: readString_loop.simps [of s] currentChar_def)
  next
    case (Cons c r)
    have adv: "length (rest (advance s)) \<le> length (rest s)"
      and adv2: "length (rest (advance (advance s))) \<le> length (rest s)"
      using Cons by (simp_all add: advance_rest)
    show ?thesis
    proof (cases "c = CHR 0x22")
      case True
      with Cons show ?thesis by (simp add: readString_loop.simps [of s] currentChar_def)
    next
      case nq: False
      show ?thesis
      proof (cases "c = CHR 0x5C \<and> peek_char s = Some CHR 0x22")
        case True
        with nq Cons 1(1) [of c]
        have "length (rest (fst (readString_loop (advance (advance s)) (str @ [CHR 0x22]))))
                \<le> length (rest (advance (advance s)))"
          by (simp add: currentChar_def)
        with adv2 nq True Cons show ?thesis
          by (simp add: readString_loop.simps [of s] currentChar_def)
      next
        case False
        with nq Cons 1(2) [of c]
        have "length (rest (fst (readString_loop (advance s) (str @ [c]))))
                \<le> length (rest (advance s))"
          by (simp add: currentChar_def)
        with adv nq False Cons show ?thesis
          by (auto simp: readString_loop.simps [of s] currentChar_def)
      qed
    qed
  qed
qed

lemma readColor_loop_le: "length (rest (fst (readColor_loop s str))) \<le> length (rest s)"
proof (induction s str rule: readColor_loop.induct)
  case (1 s str)
  show ?case
  proof (cases "rest s")
    case Nil
    then show ?thesis by (simp add: readColor_loop.simps [of s] currentChar_def)
  next
    case (Cons c r)
    have adv: "length (rest (advance s)) \<le> length (rest s)"
      using Cons by (simp add: advance_rest)
    show ?thesis
    proof (cases "is_hex c")
      case True
      with Cons 1 [of c]
      have "length (rest (fst (readColor_loop (advance s) (str @ [c]))))
              \<le> length (rest (advance s))"
        by (simp add: currentChar_def)
      with adv True Cons show ?thesis
        by (simp add: readColor_loop.simps [of s] currentChar_def)
    next
      case False
      with Cons show ?thesis by (simp add: readColor_loop.simps [of s] currentChar_def)
    qed
  qed
qed

lemma readIdentifier_loop_le:
  "length (rest (fst (readIdentifier_loop s str))) \<le> length (rest s)"
proof (induction s str rule: readIdentifier_loop.induct)
  case (1 s str)
  show ?case
  proof (cases "rest s")
    case Nil
    then show ?thesis by (simp add: readIdentifier_loop.simps [of s] currentChar_def)
  next
    case (Cons c r)
    have adv: "length (rest (advance s)) \<le> length (rest s)"
      using Cons by (simp add: advance_rest)
    show ?thesis
    proof (cases "is_alnum c")
      case True
      with Cons 1 [of c]
      have "length (rest (fst (readIdentifier_loop (advance s) (str @ [c]))))
              \<le> length (rest (advance s))"
        by (simp add: currentChar_def)
      with adv True Cons show ?thesis
        by (simp add: readIdentifier_loop.simps [of s] currentChar_def)
    next
      case False
      with Cons show ?thesis
        by (simp add: readIdentifier_loop.simps [of s] currentChar_def)
    qed
  qed
qed

lemma readNumber_shorter:
  assumes "currentChar s = Some c" and "is_digit c"
  shows "length (rest (snd (readNumber s))) < length (rest s)"
    and "tok_type (fst (readNumber s)) = NUMBER"
proof -
  from assms(1) have ne: "rest s \<noteq> []" by (auto simp: currentChar_def)
  from assms(2) have nd: "c \<noteq> CHR ''.''" by (auto simp: is_digit_def)
  have step: "readNumber_loop s [] False = readNumber_loop (advance s) [c] False"
    using assms nd by (simp add: readNumber_loop.simps [of s])
  have "length (rest (fst (readNumber_loop (advance s) [c] False))) \<le> length (rest (advance s))"
    by (rule readNumber_loop_le)
  with advance_shorter [OF ne] step
  show "length (rest (snd (readNumber s))) < length (rest s)"
    by (simp add: readNumber_def split_beta Let_def)
  show "tok_type (fst (readNumber s)) = NUMBER"
    by (simp add: readNumber_def split_beta Let_def mkToken_def)
qed

lemma readString_shorter:
  assumes "rest s \<noteq> []"
  shows "length (rest (snd (readString s))) < length (rest s)"
    and "tok_type (fst (readString s)) = STRING"
proof -
  let ?s1 = "fst (readString_loop (advance s) [])"
  have a: "length (rest ?s1) \<le> length (rest (advance s))" by (rule readString_loop_le)
  have b: "length (rest (advance ?s1)) \<le> length (rest ?s1)" by (simp add: advance_rest)
  from a b advance_shorter [OF assms]
  show "length (rest (snd (readString s))) < length (rest s)"
    by (simp add: readString_def split_beta Let_def)
  show "tok_type (fst (readString s)) = STRING"
    by (simp add: readString_def split_beta Let_def mkToken_def)
qed

lemma readColor_shorter:
  assumes "rest s \<noteq> []"
  shows "length (rest (snd (readColor s))) < length (rest s)"
    and "tok_type (fst (readColor s)) = COLOR"
proof -
  have "length (rest (fst (readColor_loop (advance s) ''#''))) \<le> length (rest (advance s))"
    by (rule readColor_loop_le)
  with advance_shorter [OF assms]
  show "length (rest (snd (readColor s))) < length (rest s)"
    by (simp add: readColor_def split_beta Let_def)
  show "tok_type (fst (readColor s)) = COLOR"
    by (simp add: readColor_def split_beta Let_def mkToken_def)
qed

lemma keyword_lookup_not_EOF: "keyword_lookup name \<noteq> EOF"
proof -
  have "\<forall>t \<in> snd ` set KEYWORDS. t \<noteq> EOF" by (simp add: KEYWORDS_def)
  then have "map_of KEYWORDS name \<noteq> Some EOF"
    by (metis map_of_SomeD snd_conv imageI)
  then show ?thesis by (auto simp: keyword_lookup_def split: option.splits)
qed

lemma keyword_lookup_not_NEWLINE: "keyword_lookup name \<noteq> NEWLINE"
proof -
  have "\<forall>t \<in> snd ` set KEYWORDS. t \<noteq> NEWLINE" by (simp add: KEYWORDS_def)
  then have "map_of KEYWORDS name \<noteq> Some NEWLINE"
    by (metis map_of_SomeD snd_conv imageI)
  then show ?thesis by (auto simp: keyword_lookup_def split: option.splits)
qed

lemma readIdentifier_shorter:
  assumes "currentChar s = Some c" and "is_alpha c"
  shows "length (rest (snd (readIdentifier s))) < length (rest s)"
    and "tok_type (fst (readIdentifier s)) \<noteq> EOF"
    and "tok_type (fst (readIdentifier s)) \<noteq> NEWLINE"
proof -
  from assms(1) have ne: "rest s \<noteq> []" by (auto simp: currentChar_def)
  have step: "readIdentifier_loop s [] = readIdentifier_loop (advance s) [c]"
    using assms by (simp add: readIdentifier_loop.simps [of s] is_alnum_def)
  have "length (rest (fst (readIdentifier_loop (advance s) [c]))) \<le> length (rest (advance s))"
    by (rule readIdentifier_loop_le)
  with advance_shorter [OF ne] step
  show "length (rest (snd (readIdentifier s))) < length (rest s)"
    by (simp add: readIdentifier_def split_beta Let_def)
  show "tok_type (fst (readIdentifier s)) \<noteq> EOF"
    by (simp add: readIdentifier_def split_beta Let_def mkToken_def keyword_lookup_not_EOF)
  show "tok_type (fst (readIdentifier s)) \<noteq> NEWLINE"
    by (simp add: readIdentifier_def split_beta Let_def mkToken_def
        keyword_lookup_not_NEWLINE)
qed

lemma two_char_props:
  assumes "t1 \<noteq> EOF" "t2 \<noteq> EOF" "t1 \<noteq> NEWLINE" "t2 \<noteq> NEWLINE"
  shows "length (rest (snd (two_char s1 k t2 v2 t1 v1))) \<le> length (rest s1)"
    and "tok_type (fst (two_char s1 k t2 v2 t1 v1)) \<noteq> EOF"
    and "tok_type (fst (two_char s1 k t2 v2 t1 v1)) \<noteq> NEWLINE"
  using assms by (auto simp: two_char_def Let_def mkToken_def advance_rest)

lemma operator_token_shorter:
  assumes "rest s \<noteq> []"
  shows "length (rest (snd (operator_token s ch))) < length (rest s)"
    and "tok_type (fst (operator_token s ch)) \<noteq> EOF"
    and "tok_type (fst (operator_token s ch)) \<noteq> NEWLINE"
proof -
  note tc = two_char_props [where ?s1.0 = "advance s" and k = "column s"]
  have le: "length (rest (snd (operator_token s ch))) \<le> length (rest (advance s))"
    by (simp add: operator_token_def Let_def tc)
  with advance_shorter [OF assms]
  show "length (rest (snd (operator_token s ch))) < length (rest s)" by simp
  show "tok_type (fst (operator_token s ch)) \<noteq> EOF"
    by (simp add: operator_token_def Let_def tc mkToken_def)
  show "tok_type (fst (operator_token s ch)) \<noteq> NEWLINE"
    by (simp add: operator_token_def Let_def tc mkToken_def)
qed

lemma nextToken_Some:
  assumes "currentChar s = Some c0" and "currentChar (skipWhitespace s) = Some c"
  shows "nextToken s =
    (if c = CHR ''/'' \<and> peek_char (skipWhitespace s) = Some CHR ''/''
       then nextToken (skipComment (skipWhitespace s))
     else if c = CHR 0x0A then
       (mkToken NEWLINE [CHR 0x0A] (line (skipWhitespace s)) (column (skipWhitespace s)),
        advance (skipWhitespace s))
     else if is_digit c then readNumber (skipWhitespace s)
     else if c = CHR 0x22 then readString (skipWhitespace s)
     else if c = CHR ''#'' then readColor (skipWhitespace s)
     else if is_alpha c then readIdentifier (skipWhitespace s)
     else operator_token (skipWhitespace s) c)"
  using assms by (simp add: nextToken.simps [of s] Let_def)

lemma nextToken_shorter:
  "tok_type (fst (nextToken s)) \<noteq> EOF \<Longrightarrow>
     length (rest (snd (nextToken s))) < length (rest s)"
proof (induction s rule: nextToken.induct)
  case (1 s)
  let ?s1 = "skipWhitespace s"
  have le: "length (rest ?s1) \<le> length (rest s)" by (rule skipWhitespace_le)
  show ?case
  proof (cases "currentChar s = None")
    case True
    then have "nextToken s = (mkToken EOF [] (line s) (column s), s)"
      by (simp add: nextToken.simps [of s])
    with 1(2) show ?thesis by (simp add: mkToken_def)
  next
    case ne: False
    then obtain c0 where c0: "currentChar s = Some c0" by auto
    show ?thesis
    proof (cases "currentChar ?s1")
      case None
      with c0 have "nextToken s = (mkToken EOF [] (line ?s1) (column ?s1), ?s1)"
        by (auto simp: nextToken.simps [of s] Let_def)
      with 1(2) show ?thesis by (simp add: mkToken_def)
    next
      case (Some c)
      then have ne1: "rest ?s1 \<noteq> []" by (auto simp: currentChar_def)
      consider (comment) "c = CHR ''/'' \<and> peek_char ?s1 = Some CHR ''/''"
        | (newline) "\<not> (c = CHR ''/'' \<and> peek_char ?s1 = Some CHR ''/'')" "c = CHR 0x0A"
        | (other) "\<not> (c = CHR ''/'' \<and> peek_char ?s1 = Some CHR ''/'')" "c \<noteq> CHR 0x0A"
        by blast
      then show ?thesis
      proof cases
        case comment
        then have eq: "nextToken s = nextToken (skipComment ?s1)"
          by (simp add: nextToken_Some [OF c0 Some])
        have "length (rest (snd (nextToken (skipComment ?s1)))) < length (rest (skipComment ?s1))"
          using 1(1) [OF ne refl Some] comment 1(2) eq by simp
        moreover have "length (rest (skipComment ?s1)) < length (rest ?s1)"
          using comment Some by (intro skipComment_shorter) auto
        ultimately show ?thesis using eq le by simp
      next
        case newline
        then have "nextToken s =
            (mkToken NEWLINE [CHR 0x0A] (line ?s1) (column ?s1), advance ?s1)"
          by (simp add: nextToken_Some [OF c0 Some])
        with advance_shorter [OF ne1] le show ?thesis by simp
      next
        case other
        then have eq: "nextToken s =
            (if is_digit c then readNumber ?s1
             else if c = CHR 0x22 then readString ?s1
             else if c = CHR ''#'' then readColor ?s1
             else if is_alpha c then readIdentifier ?s1
             else operator_token ?s1 c)"
          using trans [OF nextToken_Some [OF c0 Some] if_not_P [OF other(1)]] other(2)
          by simp
        have "length (rest (snd (nextToken s))) < length (rest ?s1)"
          unfolding eq
          using readNumber_shorter(1) [OF Some] readString_shorter(1) [OF ne1]
            readColor_shorter(1) [OF ne1] readIdentifier_shorter(1) [OF Some]
            operator_token_shorter(1) [OF ne1]
          by simp
        with le show ?thesis by simp
      qed
    qed
  qed
qed

text \<open>
  \<open>tokenize\<close>: the loop calls \<open>nextToken\<close> until it returns the end-of-input token, drops
  the newline tokens and keeps every other token, the end-of-input token last.
\<close>

function tokenize_loop :: "Lexer \<Rightarrow> Token list \<Rightarrow> Token list" where
  "tokenize_loop s tokens =
    (let (token, s') = nextToken s in
     if tok_type token \<noteq> EOF
     then tokenize_loop s' (if tok_type token \<noteq> NEWLINE then tokens @ [token] else tokens)
     else tokens @ [token])"
  by pat_completeness auto
termination
proof (relation "measure (\<lambda>(s, _). length (rest s))", goal_cases)
  case 1
  show ?case by simp
next
  case (2 s tokens x token s')
  from 2(1) 2(2) have "nextToken s = (token, s')" by simp
  then have "fst (nextToken s) = token" and "snd (nextToken s) = s'" by simp_all
  with 2(3) nextToken_shorter [of s] show ?case by simp
qed

declare tokenize_loop.simps [simp del]

definition tokenize :: "string \<Rightarrow> Token list" where
  "tokenize inp = tokenize_loop (newLexer inp) []"

lemma tokenize_loop_shape:
  "\<exists>ts e. tokenize_loop s acc = acc @ ts @ [e] \<and> tok_type e = EOF \<and>
     (\<forall>t \<in> set ts. tok_type t \<noteq> EOF \<and> tok_type t \<noteq> NEWLINE)"
proof (induction s acc rule: tokenize_loop.induct)
  case (1 s tokens)
  obtain token s' where nt: "nextToken s = (token, s')" by (cases "nextToken s")
  show ?case
  proof (cases "tok_type token = EOF")
    case True
    with nt have "tokenize_loop s tokens = tokens @ [] @ [token]"
      by (simp add: tokenize_loop.simps [of s])
    with True show ?thesis by fastforce
  next
    case False
    let ?acc = "if tok_type token \<noteq> NEWLINE then tokens @ [token] else tokens"
    from False nt have eq: "tokenize_loop s tokens = tokenize_loop s' ?acc"
      by (simp add: tokenize_loop.simps [of s])
    from 1 [OF nt [symmetric] refl False] obtain ts e where
      sh: "tokenize_loop s' ?acc = ?acc @ ts @ [e]" "tok_type e = EOF"
        "\<forall>t \<in> set ts. tok_type t \<noteq> EOF \<and> tok_type t \<noteq> NEWLINE"
      by blast
    show ?thesis
    proof (cases "tok_type token = NEWLINE")
      case True
      with eq sh show ?thesis by auto
    next
      case nl: False
      with eq sh(1) have "tokenize_loop s tokens = tokens @ (token # ts) @ [e]" by simp
      moreover have "\<forall>t \<in> set (token # ts). tok_type t \<noteq> EOF \<and> tok_type t \<noteq> NEWLINE"
        using sh(3) False nl by simp
      ultimately show ?thesis using sh(2) by blast
    qed
  qed
qed

lemma tokenize_shape:
  "\<exists>ts e. tokenize inp = ts @ [e] \<and> tok_type e = EOF \<and>
     (\<forall>t \<in> set ts. tok_type t \<noteq> EOF \<and> tok_type t \<noteq> NEWLINE)"
  using tokenize_loop_shape [of "newLexer inp" "[]"] by (simp add: tokenize_def)

lemma skipWhitespace_id:
  "currentChar s = Some c \<Longrightarrow> \<not> is_space c \<Longrightarrow> skipWhitespace s = s"
  by (simp add: skipWhitespace.simps [of s])

subsection \<open>Characters that start no token\<close>

text \<open>
  The characters that reach the \<open>default\<close> branch of the \<open>switch\<close> in \<open>nextToken\<close>: every
  test before it and every \<open>case\<close> label fails.
\<close>

definition unrecognized :: "char \<Rightarrow> bool" where
  "unrecognized c \<longleftrightarrow>
     \<not> is_space c \<and> c \<noteq> CHR 0x0A \<and> \<not> is_digit c \<and> c \<noteq> CHR 0x22 \<and> c \<noteq> CHR ''#'' \<and>
     \<not> is_alpha c \<and> c \<notin> set ''+-*/%=!<>(){},.''"

lemma skipWhitespace_None: "currentChar s = None \<Longrightarrow> skipWhitespace s = s"
  by (simp add: skipWhitespace.simps [of s])

lemma nextToken_EOF:
  "currentChar s = None \<Longrightarrow> nextToken s = (mkToken EOF [] (line s) (column s), s)"
  by (simp add: nextToken.simps [of s])

lemma nextToken_unrecognized:
  assumes "currentChar (skipWhitespace s) = Some c" and "unrecognized c"
  shows "nextToken s =
    (mkToken ILLEGAL [c] (line (advance (skipWhitespace s))) (column (skipWhitespace s)),
     advance (skipWhitespace s))"
proof -
  have "currentChar s \<noteq> None"
  proof
    assume "currentChar s = None"
    with skipWhitespace_None [of s] assms(1) show False by simp
  qed
  then obtain c0 where "currentChar s = Some c0" by auto
  from nextToken_Some [OF this assms(1)] assms(2)
  have "nextToken s = operator_token (skipWhitespace s) c"
    by (simp add: unrecognized_def)
  also have "\<dots> = (mkToken ILLEGAL [c] (line (advance (skipWhitespace s)))
      (column (skipWhitespace s)), advance (skipWhitespace s))"
    using assms(2) by (simp add: operator_token_def Let_def unrecognized_def)
  finally show ?thesis .
qed

lemma tokenize_loop_unrecognized:
  assumes "currentChar (skipWhitespace s) = Some c" and "unrecognized c"
  shows "tokenize_loop s acc =
    tokenize_loop (advance (skipWhitespace s))
      (acc @ [mkToken ILLEGAL [c] (line (advance (skipWhitespace s)))
                (column (skipWhitespace s))])"
  by (subst tokenize_loop.simps)
    (simp add: nextToken_unrecognized [OF assms] mkToken_def)

lemma tokenize_loop_acc: "tokenize_loop s acc = acc @ tokenize_loop s []"
proof (induction "length (rest s)" arbitrary: s acc rule: less_induct)
  case less
  obtain token s' where nt: "nextToken s = (token, s')" by (cases "nextToken s")
  show ?case
  proof (cases "tok_type token = EOF")
    case True
    with nt show ?thesis
      by (simp add: tokenize_loop.simps [of s acc] tokenize_loop.simps [of s "[]"])
  next
    case False
    with nextToken_shorter [of s] nt have "length (rest s') < length (rest s)" by simp
    note IH = less [OF this]
    from nt False show ?thesis
      by (simp add: tokenize_loop.simps [of s acc] tokenize_loop.simps [of s "[]"]
          IH [of "acc @ [token]"] IH [of "[token]"] IH [of acc])
  qed
qed

lemma tokenize_loop_all_unrecognized:
  assumes "\<forall>c \<in> set cs. unrecognized c"
  shows "tokenize_loop \<lparr>rest = cs, line = l, column = k\<rparr> acc =
     acc @ map (\<lambda>(col, c). mkToken ILLEGAL [c] l col) (List.enumerate k cs) @
     [mkToken EOF [] l (k + length cs)]"
  using assms
proof (induction cs arbitrary: k acc)
  case Nil
  show ?case
    by (subst tokenize_loop.simps) (simp add: nextToken_EOF currentChar_def mkToken_def)
next
  case (Cons c cs)
  let ?s = "\<lparr>rest = c # cs, line = l, column = k\<rparr>"
  from Cons.prems have c: "unrecognized c" and cs: "\<forall>c \<in> set cs. unrecognized c" by auto
  from c have sw: "skipWhitespace ?s = ?s"
    by (intro skipWhitespace_id [of _ c]) (auto simp: currentChar_def unrecognized_def)
  from cs have "hd cs \<noteq> CHR 0x0A" if "cs \<noteq> []"
    using that by (cases cs) (auto simp: unrecognized_def)
  then have adv: "advance ?s = \<lparr>rest = cs, line = l, column = Suc k\<rparr>"
    by (cases cs) (auto simp: advance_def)
  have "tokenize_loop ?s acc =
      tokenize_loop \<lparr>rest = cs, line = l, column = Suc k\<rparr> (acc @ [mkToken ILLEGAL [c] l k])"
    using tokenize_loop_unrecognized [of ?s c acc] c by (simp add: sw adv currentChar_def)
  also note Cons.IH [OF cs]
  finally show ?case by simp
qed

section \<open>AST node model (ast/nodes.ts)\<close>

text \<open>
  Every node carries its \<open>line\<close> and \<open>column\<close>, kept here as one pair. A number
  literal holds the double that \<open>parseFloat\<close> returns on the token's text; floating-point
  values are not modelled, so the number is kept as the call that produces it, and the
  generator takes the rendering \<open>toString\<close> of such a number as a parameter.

  The type \<open>Expression\<close> of the source also lists the animation commands. The parser
  never builds one as an expression, and the \<open>switch\<close> of \<open>analyzeExpression\<close> and of
  \<open>generateExpression\<close> has no case for them; they are left out of \<open>Expression\<close> here.
\<close>

type_synonym pos = "nat \<times> nat"

datatype js_number = ParseFloat string

datatype Identifier = Identifier (name: string) (ident_pos: pos)

datatype Expression =
    Ident Identifier
  | NumberLiteral js_number pos
  | StringLiteral string pos
  | ColorLiteral string pos
  | BinaryExpression string Expression Expression pos
  | CallExpression Expression "Expression list" pos
  | Circle Expression Expression Expression Expression pos
  | Rect Expression Expression Expression Expression Expression pos
  | Line Expression Expression Expression Expression Expression pos
  | Triangle "(Expression \<times> Expression) list" Expression pos

datatype AnimationCommand =
    Move Expression string pos
  | Rotate Expression pos
  | Scale Expression pos
  | Fade Expression pos

datatype Statement =
    LetStatement Identifier Expression pos
  | FunctionDeclaration Identifier "Identifier list" "Statement list" pos
  | ReturnStatement "Expression option" pos
  | IfStatement Expression "Statement list" "Statement list option" pos
  | RepeatStatement Expression "Statement list" pos
  | AnimateBlock "AnimationCommand list" pos
  | SceneBlock string "Statement list" pos
  | ExpressionStatement Expression pos

datatype Program = Program (body: "Statement list") pos

section \<open>Semantic analyzer (semantic/analyzer.ts)\<close>

definition digit_char :: "nat \<Rightarrow> char" where
  "digit_char d = ''0123456789'' ! d"

text \<open>The decimal text of a line or column number in a template string.\<close>

function show_nat :: "nat \<Rightarrow> string" where
  "show_nat n = (if n < 10 then [digit_char n] else show_nat (n div 10) @ [digit_char (n mod 10)])"
  by pat_completeness auto
termination
  by (relation "measure id") auto

declare show_nat.simps [simp del]

definition quoted :: "string \<Rightarrow> string" where
  "quoted s = [CHR 0x27] @ s @ [CHR 0x27]"

datatype SemanticError = SemanticError (detail: string) (error_pos: pos)

text \<open>The \<open>message\<close> that the constructor of \<open>SemanticError\<close> passes to \<open>Error\<close>.\<close>

definition message :: "SemanticError \<Rightarrow> string" where
  "message e =
    ''Semantic error at line '' @ show_nat (fst (error_pos e)) @ '', column '' @
    show_nat (snd (error_pos e)) @ '': '' @ detail e"

type_synonym SymbolTable = "string \<rightharpoonup> (string \<times> nat \<times> nat)"

text \<open>
  The analyzer's fields. The head of \<open>scopes\<close> is the last element of the array, the
  current scope.
\<close>

record SemanticAnalyzer =
  scopes :: "SymbolTable list"
  errors :: "SemanticError list"

definition newSemanticAnalyzer :: SemanticAnalyzer where
  "newSemanticAnalyzer = \<lparr>scopes = [Map.empty], errors = []\<rparr>"

definition enterScope :: "SemanticAnalyzer \<Rightarrow> SemanticAnalyzer" where
  "enterScope a = a\<lparr>scopes := Map.empty # scopes a\<rparr>"

definition exitScope :: "SemanticAnalyzer \<Rightarrow> SemanticAnalyzer" where
  "exitScope a = a\<lparr>scopes := tl (scopes a)\<rparr>"

text \<open>
  The test \<open>if (scope[name])\<close>: a scope is an object literal, so the read finds the
  entry stored under \<open>name\<close> or, failing that, a member inherited from
  \<open>Object.prototype\<close>; both are truthy.
\<close>

definition has_entry :: "SymbolTable \<Rightarrow> string \<Rightarrow> bool" where
  "has_entry scope nm \<longleftrightarrow> scope nm \<noteq> None \<or> nm \<in> set object_prototype_keys"

text \<open>
  \<open>declare\<close>. With no scope on the stack \<open>currentScope()\<close> is \<open>undefined\<close> and the read
  \<open>scope[name]\<close> raises a \<open>TypeError\<close>: the result \<open>None\<close>.
\<close>

definition declare_name ::
  "string \<Rightarrow> string \<Rightarrow> pos \<Rightarrow> SemanticAnalyzer \<Rightarrow> SemanticAnalyzer option" where
  "declare_name nm ty p a =
    (case scopes a of
       [] \<Rightarrow> None
     | scope # outer \<Rightarrow>
        if has_entry scope nm then
          Some (a\<lparr>errors := errors a @
            [SemanticError (''Variable '' @ quoted nm @ '' is already declared in this scope'') p]\<rparr>)
        else Some (a\<lparr>scopes := scope(nm \<mapsto> (ty, fst p, snd p)) # outer\<rparr>))"

primrec resolves :: "SymbolTable list \<Rightarrow> string \<Rightarrow> bool" where
  "resolves [] nm = False"
| "resolves (scope # outer) nm = (if has_entry scope nm then True else resolves outer nm)"

definition resolve :: "string \<Rightarrow> pos \<Rightarrow> SemanticAnalyzer \<Rightarrow> SemanticAnalyzer" where
  "resolve nm p a =
    (if resolves (scopes a) nm then a
     else a\<lparr>errors := errors a @ [SemanticError (''Undefined variable '' @ quoted nm) p]\<rparr>)"

function (sequential) analyzeExpression :: "Expression \<Rightarrow> SemanticAnalyzer \<Rightarrow> SemanticAnalyzer"
  and analyzeExpressions :: "Expression list \<Rightarrow> SemanticAnalyzer \<Rightarrow> SemanticAnalyzer"
  and analyzePoints :: "(Expression \<times> Expression) list \<Rightarrow> SemanticAnalyzer \<Rightarrow> SemanticAnalyzer"
where
  "analyzeExpression (Ident i) a = resolve (name i) (ident_pos i) a"
| "analyzeExpression (BinaryExpression operator left right p) a =
     (let a = analyzeExpression left a in analyzeExpression right a)"
| "analyzeExpression (CallExpression callee arguments p) a =
     (let a = analyzeExpression callee a in analyzeExpressions arguments a)"
| "analyzeExpression (Circle x y sz color p) a =
     (let a = analyzeExpression x a; a = analyzeExpression y a;
          a = analyzeExpression sz a
      in analyzeExpression color a)"
| "analyzeExpression (Rect x y width height color p) a =
     (let a = analyzeExpression x a; a = analyzeExpression y a;
          a = analyzeExpression width a; a = analyzeExpression height a
      in analyzeExpression color a)"
| "analyzeExpression (Line x1 y1 x2 y2 color p) a =
     (let a = analyzeExpression x1 a; a = analyzeExpression y1 a;
          a = analyzeExpression x2 a; a = analyzeExpression y2 a
      in analyzeExpression color a)"
| "analyzeExpression (Triangle points color p) a =
     (let a = analyzePoints points a in analyzeExpression color a)"
| "analyzeExpression (NumberLiteral n p) a = a"
| "analyzeExpression (StringLiteral v p) a = a"
| "analyzeExpression (ColorLiteral v p) a = a"
| "analyzeExpressions [] a = a"
| "analyzeExpressions (e # es) a =
     (let a = analyzeExpression e a in analyzeExpressions es a)"
| "analyzePoints [] a = a"
| "analyzePoints ((x, y) # pts) a =
     (let a = analyzeExpression x a; a = analyzeExpression y a in analyzePoints pts a)"
  by pat_completeness auto
termination
  by (relation "measure (\<lambda>x. case x of
        Inl (e, a) \<Rightarrow> size e
      | Inr (Inl (es, a)) \<Rightarrow> size_list size es
      | Inr (Inr (ps, a)) \<Rightarrow> size_list (size_prod size size) ps)") auto

fun declare_parameters :: "Identifier list \<Rightarrow> SemanticAnalyzer \<Rightarrow> SemanticAnalyzer option" where
  "declare_parameters [] a = Some a"
| "declare_parameters (param # params) a =
     (case declare_name (name param) ''parameter'' (ident_pos param) a of
        None \<Rightarrow> None
      | Some a' \<Rightarrow> declare_parameters params a')"

fun analyzeStatement :: "Statement \<Rightarrow> SemanticAnalyzer \<Rightarrow> SemanticAnalyzer option"
  and analyzeStatements :: "Statement list \<Rightarrow> SemanticAnalyzer \<Rightarrow> SemanticAnalyzer option"
where
  "analyzeStatement (LetStatement identifier v p) a =
     declare_name (name identifier) ''variable'' (ident_pos identifier) (analyzeExpression v a)"
| "analyzeStatement (FunctionDeclaration nm parameters stmts p) a =
     (case declare_name (name nm) ''function'' (ident_pos nm) a of
        None \<Rightarrow> None
      | Some a1 \<Rightarrow>
         (case declare_parameters parameters (enterScope a1) of
            None \<Rightarrow> None
          | Some a2 \<Rightarrow>
             (case analyzeStatements stmts a2 of
                None \<Rightarrow> None
              | Some a3 \<Rightarrow> Some (exitScope a3))))"
| "analyzeStatement (ReturnStatement v p) a =
     (case v of None \<Rightarrow> Some a | Some e \<Rightarrow> Some (analyzeExpression e a))"
| "analyzeStatement (IfStatement condition thenBranch elseBranch p) a =
     (case analyzeStatements thenBranch (analyzeExpression condition a) of
        None \<Rightarrow> None
      | Some a1 \<Rightarrow>
         (case elseBranch of
            None \<Rightarrow> Some a1
          | Some stmts \<Rightarrow> analyzeStatements stmts a1))"
| "analyzeStatement (RepeatStatement count stmts p) a =
     analyzeStatements stmts (analyzeExpression count a)"
| "analyzeStatement (AnimateBlock animations p) a = Some a"
| "analyzeStatement (SceneBlock nm stmts p) a =
     (case analyzeStatements stmts (enterScope a) of
        None \<Rightarrow> None
      | Some a1 \<Rightarrow> Some (exitScope a1))"
| "analyzeStatement (ExpressionStatement e p) a = Some (analyzeExpression e a)"
| "analyzeStatements [] a = Some a"
| "analyzeStatements (stmt # stmts) a =
     (case analyzeStatement stmt a of
        None \<Rightarrow> None
      | Some a' \<Rightarrow> analyzeStatements stmts a')"

text \<open>\<open>analyze\<close> empties the error list, keeps the scopes, and returns the errors.\<close>

definition analyze :: "Program \<Rightarrow> SemanticAnalyzer \<Rightarrow> SemanticError list option" where
  "analyze program a =
    (case analyzeStatements (body program) (a\<lparr>errors := []\<rparr>) of
       None \<Rightarrow> None
     | Some a' \<Rightarrow> Some (errors a'))"

lemma analyzeExpression_scopes:
  "scopes (analyzeExpression e a) = scopes a"
  "scopes (analyzeExpressions es a) = scopes a"
  "scopes (analyzePoints ps a) = scopes a"
  by (induction e a and es a and ps a
      rule: analyzeExpression_analyzeExpressions_analyzePoints.induct)
    (simp_all add: resolve_def Let_def)

lemma resolve_unresolved:
  "\<not> resolves (scopes a) nm \<Longrightarrow>
     resolve nm p a = a\<lparr>errors := errors a @ [SemanticError (''Undefined variable '' @ quoted nm) p]\<rparr>"
  by (simp add: resolve_def)

lemma resolve_resolved: "resolves (scopes a) nm \<Longrightarrow> resolve nm p a = a"
  by (simp add: resolve_def)

section \<open>Code generator (codegen/generator.ts)\<close>

text \<open>The field \<open>output\<close> is \<open>output_text\<close> here.\<close>

record CodeGenerator =
  indent :: nat
  output_text :: string

definition emit :: "string \<Rightarrow> CodeGenerator \<Rightarrow> CodeGenerator" where
  "emit code g = g\<lparr>output_text := output_text g @ code\<rparr>"

text \<open>\<open>'  '.repeat(this.indent)\<close>\<close>

definition indentation :: "CodeGenerator \<Rightarrow> string" where
  "indentation g = concat (replicate (indent g) ''  '')"

definition emitLine :: "string \<Rightarrow> CodeGenerator \<Rightarrow> CodeGenerator" where
  "emitLine code g = emit (indentation g @ code @ ''\<newline>'') g"

definition emitIndent :: "CodeGenerator \<Rightarrow> CodeGenerator" where
  "emitIndent g = emit (indentation g) g"

definition indent_inc :: "CodeGenerator \<Rightarrow> CodeGenerator" where
  "indent_inc g = g\<lparr>indent := indent g + 1\<rparr>"

definition indent_dec :: "CodeGenerator \<Rightarrow> CodeGenerator" where
  "indent_dec g = g\<lparr>indent := indent g - 1\<rparr>"

definition dquoted :: "string \<Rightarrow> string" where
  "dquoted s = [CHR 0x22] @ s @ [CHR 0x22]"

text \<open>A sequence of statements on the generator: each step takes the fields and returns them.\<close>

primrec steps :: "('s \<Rightarrow> 's) list \<Rightarrow> 's \<Rightarrow> 's" where
  "steps [] g = g"
| "steps (f # fs) g = steps fs (f g)"

text \<open>
  \<open>generateExpression\<close> with the four shape generators. \<open>numberToString\<close> is the
  rendering \<open>toString\<close> of a number. The second argument of \<open>generateArguments\<close> and of
  \<open>generatePoints\<close> is the index \<open>i\<close> of \<open>forEach\<close>.
\<close>

function (sequential)
  generateExpression :: "(js_number \<Rightarrow> string) \<Rightarrow> Expression \<Rightarrow> CodeGenerator \<Rightarrow> CodeGenerator"
  and generateArguments ::
    "(js_number \<Rightarrow> string) \<Rightarrow> nat \<Rightarrow> Expression list \<Rightarrow> CodeGenerator \<Rightarrow> CodeGenerator"
  and generatePoints ::
    "(js_number \<Rightarrow> string) \<Rightarrow> nat \<Rightarrow> (Expression \<times> Expression) list \<Rightarrow> CodeGenerator
      \<Rightarrow> CodeGenerator"
where
  "generateExpression numberToString (NumberLiteral v p) = emit (numberToString v)"
| "generateExpression numberToString (StringLiteral v p) = emit (dquoted v)"
| "generateExpression numberToString (ColorLiteral v p) = emit (dquoted v)"
| "generateExpression numberToString (Ident i) = emit (name i)"
| "generateExpression numberToString (BinaryExpression operator left right p) =
     steps
      [emit ''('',
       generateExpression numberToString left,
       emit ('' '' @ operator @ '' ''),
       generateExpression numberToString right,
       emit '')'']"
| "generateExpression numberToString (CallExpression callee arguments p) =
     steps
      [generateExpression numberToString callee,
       emit ''('',
       generateArguments numberToString 0 arguments,
       emit '')'']"
| "generateExpression numberToString (Circle x y sz color p) =
     steps
      [emit ''(function() {\<newline>'',
       indent_inc,
       emitLine ''ctx.save();'',
       emitIndent,
       emit ''const x = '',
       generateExpression numberToString x,
       emit '';\<newline>'',
       emitIndent,
       emit ''const y = '',
       generateExpression numberToString y,
       emit '';\<newline>'',
       emitIndent,
       emit ''const size = '',
       generateExpression numberToString sz,
       emit '';\<newline>'',
       emitIndent,
       emit ''const color = '',
       generateExpression numberToString color,
       emit '';\<newline>'',
       emitLine ''applyTransform(x, y);'',
       emitLine ''ctx.beginPath();'',
       emitLine ''ctx.arc(0, 0, size, 0, Math.PI * 2);'',
       emitLine ''ctx.fillStyle = color;'',
       emitLine ''ctx.fill();'',
       emitLine ''ctx.restore();'',
       indent_dec,
       emitIndent,
       emit ''})()'']"
| "generateExpression numberToString (Rect x y width height color p) =
     steps
      [emit ''(function() {\<newline>'',
       indent_inc,
       emitLine ''ctx.save();'',
       emitIndent,
       emit ''const x = '',
       generateExpression numberToString x,
       emit '';\<newline>'',
       emitIndent,
       emit ''const y = '',
       generateExpression numberToString y,
       emit '';\<newline>'',
       emitIndent,
       emit ''const w = '',
       generateExpression numberToString width,
       emit '';\<newline>'',
       emitIndent,
       emit ''const h = '',
       generateExpression numberToString height,
       emit '';\<newline>'',
       emitIndent,
       emit ''const color = '',
       generateExpression numberToString color,
       emit '';\<newline>'',
       emitLine ''applyTransform(x, y);'',
       emitLine ''ctx.fillStyle = color;'',
       emitLine ''ctx.fillRect(-w/2, -h/2, w, h);'',
       emitLine ''ctx.restore();'',
       indent_dec,
       emitIndent,
       emit ''})()'']"
| "generateExpression numberToString (Line x1 y1 x2 y2 color p) =
     steps
      [emit ''(function() {\<newline>'',
       indent_inc,
       emitLine ''ctx.save();'',
       emitIndent,
       emit ''const color = '',
       generateExpression numberToString color,
       emit '';\<newline>'',
       emitLine ''ctx.strokeStyle = color;'',
       emitLine ''ctx.beginPath();'',
       emitIndent,
       emit ''ctx.moveTo('',
       generateExpression numberToString x1,
       emit '', '',
       generateExpression numberToString y1,
       emit '');\<newline>'',
       emitIndent,
       emit ''ctx.lineTo('',
       generateExpression numberToString x2,
       emit '', '',
       generateExpression numberToString y2,
       emit '');\<newline>'',
       emitLine ''ctx.stroke();'',
       emitLine ''ctx.restore();'',
       indent_dec,
       emitIndent,
       emit ''})()'']"
| "generateExpression numberToString (Triangle points color p) =
     steps
      [emit ''(function() {\<newline>'',
       indent_inc,
       emitLine ''ctx.save();'',
       emitIndent,
       emit ''const color = '',
       generateExpression numberToString color,
       emit '';\<newline>'',
       emitLine ''ctx.fillStyle = color;'',
       emitLine ''ctx.beginPath();'',
       generatePoints numberToString 0 points,
       emitLine ''ctx.closePath();'',
       emitLine ''ctx.fill();'',
       emitLine ''ctx.restore();'',
       indent_dec,
       emitIndent,
       emit ''})()'']"
| "generateArguments numberToString i [] = steps []"
| "generateArguments numberToString i (arg # args) =
     steps
      [if i > 0 then emit '', '' else steps [],
       generateExpression numberToString arg,
       generateArguments numberToString (i + 1) args]"
| "generatePoints numberToString i [] = steps []"
| "generatePoints numberToString i ((x, y) # points) =
     steps
      [emitIndent,
       emit (if i = 0 then ''ctx.moveTo('' else ''ctx.lineTo(''),
       generateExpression numberToString x,
       emit '', '',
       generateExpression numberToString y,
       emit '');\<newline>'',
       generatePoints numberToString (i + 1) points]"
  by pat_completeness auto
termination
  by (relation "measure (\<lambda>x. case x of
        Inl (n, e) \<Rightarrow> size e
      | Inr (Inl (n, i, es)) \<Rightarrow> size_list size es
      | Inr (Inr (n, i, ps)) \<Rightarrow> size_list (size_prod size size) ps)") auto

text \<open>
  \<open>generateAnimationCommand\<close>: the axis and the sign of a \<open>move\<close> come from two
  comparisons of the direction with string literals.
\<close>

definition generateLetStatement ::
  "(js_number \<Rightarrow> string) \<Rightarrow> Identifier \<Rightarrow> Expression \<Rightarrow> CodeGenerator \<Rightarrow> CodeGenerator"
where
  "generateLetStatement numberToString identifier v =
     steps
      [emitIndent,
       emit (''let '' @ name identifier @ '' = ''),
       generateExpression numberToString v,
       emit '';\<newline>'']"

fun generateAnimationCommand ::
  "(js_number \<Rightarrow> string) \<Rightarrow> AnimationCommand \<Rightarrow> CodeGenerator \<Rightarrow> CodeGenerator"
where
  "generateAnimationCommand numberToString (Move amount direction p) =
     (let axis = (if direction = ''left'' \<or> direction = ''right'' then ''x'' else ''y'');
          sign = (if direction = ''left'' \<or> direction = ''up'' then ''-'' else ''+'')
      in steps
      [emitIndent,
       emit (''animationState.'' @ axis @ '' '' @ sign @ ''= ''),
       generateExpression numberToString amount,
       emit '';\<newline>''])"
| "generateAnimationCommand numberToString (Rotate angle p) =
     steps
      [emitIndent,
       emit ''animationState.rotation += '',
       generateExpression numberToString angle,
       emit '';\<newline>'']"
| "generateAnimationCommand numberToString (Scale factor p) =
     steps
      [emitIndent,
       emit ''animationState.scale *= '',
       generateExpression numberToString factor,
       emit '';\<newline>'']"
| "generateAnimationCommand numberToString (Fade amount p) =
     steps
      [emitIndent,
       emit ''animationState.opacity -= '',
       generateExpression numberToString amount,
       emit '';\<newline>'']"

fun generateAnimationCommands ::
  "(js_number \<Rightarrow> string) \<Rightarrow> AnimationCommand list \<Rightarrow> CodeGenerator \<Rightarrow> CodeGenerator"
where
  "generateAnimationCommands numberToString [] = steps []"
| "generateAnimationCommands numberToString (anim # anims) =
     steps
      [generateAnimationCommand numberToString anim,
       generateAnimationCommands numberToString anims]"

definition generateAnimateBlock ::
  "(js_number \<Rightarrow> string) \<Rightarrow> AnimationCommand list \<Rightarrow> CodeGenerator \<Rightarrow> CodeGenerator"
where
  "generateAnimateBlock numberToString animations =
     steps
      [emitLine ''// Animation loop'',
       emitLine ''function animate() {'',
       indent_inc,
       emitLine ''clear();'',
       generateAnimationCommands numberToString animations,
       emitLine ''requestAnimationFrame(animate);'',
       indent_dec,
       emitLine ''}'',
       emitLine ''animate();'']"

text \<open>\<open>parts.join(', ')\<close>\<close>

fun join_comma :: "string list \<Rightarrow> string" where
  "join_comma [] = []"
| "join_comma [s] = s"
| "join_comma (s # t # ss) = s @ '', '' @ join_comma (t # ss)"

function (sequential)
  generateStatement :: "(js_number \<Rightarrow> string) \<Rightarrow> Statement \<Rightarrow> CodeGenerator \<Rightarrow> CodeGenerator"
  and generateStatements ::
    "(js_number \<Rightarrow> string) \<Rightarrow> Statement list \<Rightarrow> CodeGenerator \<Rightarrow> CodeGenerator"
where
  "generateStatement numberToString (LetStatement identifier v p) =
     generateLetStatement numberToString identifier v"
| "generateStatement numberToString (FunctionDeclaration nm parameters stmts p) =
     steps
      [emitIndent,
       emit (''function '' @ name nm @ ''(''),
       emit (join_comma (map name parameters)),
       emit '') {\<newline>'',
       indent_inc,
       generateStatements numberToString stmts,
       indent_dec,
       emitLine ''}'']"
| "generateStatement numberToString (ReturnStatement v p) =
     steps
      [emitIndent,
       emit ''return'',
       (case v of
          None \<Rightarrow> steps []
        | Some e \<Rightarrow> steps [emit '' '', generateExpression numberToString e]),
       emit '';\<newline>'']"
| "generateStatement numberToString (IfStatement condition thenBranch elseBranch p) =
     steps
      [emitIndent,
       emit ''if ('',
       generateExpression numberToString condition,
       emit '') {\<newline>'',
       indent_inc,
       generateStatements numberToString thenBranch,
       indent_dec,
       (case elseBranch of
          None \<Rightarrow> steps []
        | Some stmts \<Rightarrow>
           steps
            [emitLine ''} else {'',
             indent_inc,
             generateStatements numberToString stmts,
             indent_dec]),
       emitLine ''}'']"
| "generateStatement numberToString (RepeatStatement count stmts p) =
     steps
      [emitIndent,
       emit ''for (let __i = 0; __i < '',
       generateExpression numberToString count,
       emit ''; __i++) {\<newline>'',
       indent_inc,
       generateStatements numberToString stmts,
       indent_dec,
       emitLine ''}'']"
| "generateStatement numberToString (AnimateBlock animations p) =
     generateAnimateBlock numberToString animations"
| "generateStatement numberToString (SceneBlock nm stmts p) =
     steps
      [emitLine (''// Scene: '' @ nm),
       emitLine (''function scene_'' @ nm @ ''() {''),
       indent_inc,
       generateStatements numberToString stmts,
       indent_dec,
       emitLine ''}'',
       emitLine (''scene_'' @ nm @ ''();'')]"
| "generateStatement numberToString (ExpressionStatement e p) =
     steps
      [emitIndent,
       generateExpression numberToString e,
       emit '';\<newline>'']"
| "generateStatements numberToString [] = steps []"
| "generateStatements numberToString (stmt # stmts) =
     steps
      [generateStatement numberToString stmt,
       generateStatements numberToString stmts]"
  by pat_completeness auto
termination
  by (relation "measure (\<lambda>x. case x of
        Inl (n, s) \<Rightarrow> size s
      | Inr (n, ss) \<Rightarrow> size_list size ss)") auto

definition preamble :: "CodeGenerator \<Rightarrow> CodeGenerator" where
  \<open>preamble =
     steps
      [emitLine ''// MFlow compiled output - Created by Mehdi'',
       emitLine ''const canvas = document.getElementById("mflow-canvas");'',
       emitLine ''const ctx = canvas.getContext("2d");'',
       emitLine '''',
       emitLine ''// Animation state'',
       emitLine ''let animationState = {'',
       indent_inc,
       emitLine ''x: 0,'',
       emitLine ''y: 0,'',
       emitLine ''rotation: 0,'',
       emitLine ''scale: 1,'',
       emitLine ''opacity: 1'',
       indent_dec,
       emitLine ''};'',
       emitLine '''',
       emitLine ''// Helper functions'',
       emitLine ''function resetTransform() {'',
       indent_inc,
       emitLine ''ctx.setTransform(1, 0, 0, 1, 0, 0);'',
       indent_dec,
       emitLine ''}'',
       emitLine '''',
       emitLine ''function applyTransform(x, y) {'',
       indent_inc,
       emitLine ''ctx.translate(x + animationState.x, y + animationState.y);'',
       emitLine ''ctx.rotate(animationState.rotation * Math.PI / 180);'',
       emitLine ''ctx.scale(animationState.scale, animationState.scale);'',
       emitLine ''ctx.globalAlpha = animationState.opacity;'',
       indent_dec,
       emitLine ''}'',
       emitLine '''',
       emitLine ''// Clear canvas'',
       emitLine ''function clear() {'',
       indent_inc,
       emitLine ''ctx.clearRect(0, 0, canvas.width, canvas.height);'',
       indent_dec,
       emitLine ''}'',
       emitLine '''',
       emitLine ''// Main program'',
       emitLine ''(function main() {'',
       indent_inc]\<close>

text \<open>\<open>generate\<close> resets the two fields, whatever the generator emitted before.\<close>

definition generate :: "(js_number \<Rightarrow> string) \<Rightarrow> Program \<Rightarrow> CodeGenerator \<Rightarrow> string" where
  "generate numberToString program g =
     output_text
       (steps
         [(\<lambda>g. g\<lparr>output_text := [], indent := 0\<rparr>),
          preamble,
          generateStatements numberToString (body program),
          indent_dec,
          emitLine ''})();''] g)"

definition newCodeGenerator :: CodeGenerator where
  "newCodeGenerator = \<lparr>indent = 0, output_text = []\<rparr>"

subsection \<open>The text a generator function appends\<close>

text \<open>
  Every generator function appends to \<open>output\<close> and leaves \<open>indent\<close> as it found it, and
  the appended text depends on the node and on \<open>indent\<close> only. The following constants
  name that text: what the function writes into an empty buffer at a given indent.
\<close>

definition expression_text :: "(js_number \<Rightarrow> string) \<Rightarrow> nat \<Rightarrow> Expression \<Rightarrow> string" where
  "expression_text numberToString i e =
     output_text (generateExpression numberToString e \<lparr>indent = i, output_text = []\<rparr>)"

definition arguments_text ::
  "(js_number \<Rightarrow> string) \<Rightarrow> nat \<Rightarrow> nat \<Rightarrow> Expression list \<Rightarrow> string" where
  "arguments_text numberToString i k es =
     output_text (generateArguments numberToString k es \<lparr>indent = i, output_text = []\<rparr>)"

definition points_text ::
  "(js_number \<Rightarrow> string) \<Rightarrow> nat \<Rightarrow> nat \<Rightarrow> (Expression \<times> Expression) list \<Rightarrow> string" where
  "points_text numberToString i k ps =
     output_text (generatePoints numberToString k ps \<lparr>indent = i, output_text = []\<rparr>)"

definition animation_text ::
  "(js_number \<Rightarrow> string) \<Rightarrow> nat \<Rightarrow> AnimationCommand \<Rightarrow> string" where
  "animation_text numberToString i cmd =
     output_text (generateAnimationCommand numberToString cmd
       \<lparr>indent = i, output_text = []\<rparr>)"

definition animations_text ::
  "(js_number \<Rightarrow> string) \<Rightarrow> nat \<Rightarrow> AnimationCommand list \<Rightarrow> string" where
  "animations_text numberToString i anims =
     output_text (generateAnimationCommands numberToString anims
       \<lparr>indent = i, output_text = []\<rparr>)"

definition statement_text :: "(js_number \<Rightarrow> string) \<Rightarrow> nat \<Rightarrow> Statement \<Rightarrow> string" where
  "statement_text numberToString i s =
     output_text (generateStatement numberToString s \<lparr>indent = i, output_text = []\<rparr>)"

definition statements_text :: "(js_number \<Rightarrow> string) \<Rightarrow> nat \<Rightarrow> Statement list \<Rightarrow> string" where
  "statements_text numberToString i ss =
     output_text (generateStatements numberToString ss \<lparr>indent = i, output_text = []\<rparr>)"

definition indent_text :: "nat \<Rightarrow> string" where
  "indent_text i = concat (replicate i ''  '')"

definition appended :: "string \<Rightarrow> CodeGenerator \<Rightarrow> CodeGenerator" where
  "appended t g = g\<lparr>output_text := output_text g @ t\<rparr>"

lemma indentation_indent_text [simp]: "indentation g = indent_text (indent g)"
  by (simp add: indentation_def indent_text_def)

lemma indent_text_simps [simp]:
  "indent_text 0 = []"
  "indent_text (Suc i) = ''  '' @ indent_text i"
  by (simp_all add: indent_text_def)

lemma appended_simps [simp]:
  "indent (appended t g) = indent g"
  "output_text (appended t g) = output_text g @ t"
  "appended t (appended u g) = appended (u @ t) g"
  "emit t g = appended t g"
  "emitIndent g = appended (indent_text (indent g)) g"
  "emitLine t g = appended (indent_text (indent g) @ t @ ''\<newline>'') g"
  "indent_inc (appended t g) = appended t (indent_inc g)"
  "indent_dec (appended t g) = appended t (indent_dec g)"
  "indent_dec (indent_inc g) = g"
  "indent (indent_inc g) = Suc (indent g)"
  "output_text (indent_inc g) = output_text g"
  by (simp_all add: appended_def emit_def emitIndent_def emitLine_def indentation_def
      indent_text_def indent_inc_def indent_dec_def)

lemma appended_eq_iff [simp]: "appended t g = appended u g \<longleftrightarrow> t = u"
proof
  assume "appended t g = appended u g"
  then have "output_text (appended t g) = output_text (appended u g)" by simp
  then show "t = u" by simp
qed simp

lemma appended_empty [simp]: "appended [] g = g"
  by (simp add: appended_def)

lemma empty_buffer_simps [simp]:
  "indent_inc \<lparr>indent = i, output_text = t\<rparr> = \<lparr>indent = Suc i, output_text = t\<rparr>"
  "indent_dec \<lparr>indent = Suc i, output_text = t\<rparr> = \<lparr>indent = i, output_text = t\<rparr>"
  "appended u \<lparr>indent = i, output_text = t\<rparr> = \<lparr>indent = i, output_text = t @ u\<rparr>"
  by (simp_all add: indent_inc_def indent_dec_def appended_def)

lemma generateExpression_appends:
  "generateExpression n e g = appended (expression_text n (indent g) e) g"
  "generateArguments n k es g = appended (arguments_text n (indent g) k es) g"
  "generatePoints n k ps g = appended (points_text n (indent g) k ps) g"
proof (induction n e and n k es and n k ps arbitrary: g and g and g
    rule: generateExpression_generateArguments_generatePoints.induct)
  case (5 numberToString operator left right p)
  then show ?case
    by (simp add: expression_text_def [of _ _ "BinaryExpression operator left right p"])
next
  case (6 numberToString callee arguments p)
  then show ?case
    by (simp add: expression_text_def [of _ _ "CallExpression callee arguments p"])
next
  case (7 numberToString x y sz color p)
  then show ?case
    by (simp add: expression_text_def [of _ _ "Circle x y sz color p"])
next
  case (8 numberToString x y width height color p)
  then show ?case
    by (simp add: expression_text_def [of _ _ "Rect x y width height color p"])
next
  case (9 numberToString x1 y1 x2 y2 color p)
  then show ?case
    by (simp add: expression_text_def [of _ _ "Line x1 y1 x2 y2 color p"])
next
  case (10 numberToString points color p)
  then show ?case
    by (simp add: expression_text_def [of _ _ "Triangle points color p"])
next
  case (12 numberToString i arg args)
  then show ?case
    by (simp add: arguments_text_def [of _ _ _ "arg # args"])
next
  case (14 numberToString i x y points)
  then show ?case
    by (simp add: points_text_def [of _ _ _ "(x, y) # points"])
qed (simp_all add: expression_text_def arguments_text_def points_text_def)

lemma generateAnimationCommand_appends:
  "generateAnimationCommand n cmd g = appended (animation_text n (indent g) cmd) g"
  by (cases cmd) (simp_all add: animation_text_def generateExpression_appends Let_def)

lemma generateAnimationCommands_appends:
  "generateAnimationCommands n anims g = appended (animations_text n (indent g) anims) g"
proof (induction anims arbitrary: g)
  case Nil
  show ?case by (simp add: animations_text_def)
next
  case (Cons anim anims)
  show ?case
    by (simp add: animations_text_def [of _ _ "anim # anims"] Cons
        generateAnimationCommand_appends)
qed

lemma generateStatement_appends:
  "generateStatement n s g = appended (statement_text n (indent g) s) g"
  "generateStatements n ss g = appended (statements_text n (indent g) ss) g"
proof (induction n s and n ss arbitrary: g and g
    rule: generateStatement_generateStatements.induct)
  case (1 numberToString ident v p)
  show ?case
    by (simp add: statement_text_def generateLetStatement_def generateExpression_appends)
next
  case (2 numberToString nm parameters stmts p)
  then show ?case
    by (simp add: statement_text_def [of _ _ "FunctionDeclaration nm parameters stmts p"])
next
  case (3 numberToString v p)
  show ?case
    by (cases v) (simp_all add: statement_text_def generateExpression_appends)
next
  case (4 numberToString condition thenBranch elseBranch p)
  show ?case
  proof (cases elseBranch)
    case None
    with 4 show ?thesis
      by (simp add: statement_text_def [of _ _ "IfStatement condition thenBranch None p"]
          generateExpression_appends)
  next
    case (Some stmts)
    with 4 show ?thesis
      by (simp add:
          statement_text_def [of _ _ "IfStatement condition thenBranch (Some stmts) p"]
          generateExpression_appends)
  qed
next
  case (5 numberToString count stmts p)
  then show ?case
    by (simp add: statement_text_def [of _ _ "RepeatStatement count stmts p"]
        generateExpression_appends)
next
  case (6 numberToString animations p)
  show ?case
    by (simp add: statement_text_def generateAnimateBlock_def
        generateAnimationCommands_appends)
next
  case (7 numberToString nm stmts p)
  then show ?case
    by (simp add: statement_text_def [of _ _ "SceneBlock nm stmts p"])
next
  case (8 numberToString e p)
  show ?case
    by (simp add: statement_text_def generateExpression_appends)
next
  case (9 numberToString)
  show ?case by (simp add: statements_text_def)
next
  case (10 numberToString stmt stmts)
  then show ?case
    by (simp add: statements_text_def [of _ _ "stmt # stmts"])
qed

text \<open>
  A rendering of numbers for the examples: the text the number was read from. It agrees
  with \<open>toString\<close> on every number token that is the shortest decimal form of its value,
  such as \<open>5\<close> or \<open>0.5\<close>.
\<close>

fun lexeme :: "js_number \<Rightarrow> string" where
  "lexeme (ParseFloat s) = s"

section \<open>Parser (parser/parser.ts)\<close>

text \<open>
  The parser's fields are the token array and the index \<open>current\<close>; here a parser state
  is the list of the tokens from \<open>current\<close> on, so that \<open>peek()\<close> is its head. Where a
  method reads \<open>previous()\<close> on entry, the token just consumed is passed as an argument.

  A method either returns a value and a new position, or throws at a position, or runs
  out of fuel. The exceptions are \<open>ParseError\<close> and the \<open>TypeError\<close> of reading \<open>.type\<close>
  of \<open>undefined\<close>, which \<open>peek()\<close> returns behind the end of the array. The methods call
  each other recursively; every call uses up one unit of fuel.
\<close>

datatype exn = ParseError string nat nat | TypeError

datatype 'a result = Ok 'a "Token list" | Throw exn "Token list" | OutOfFuel

type_synonym 'a parser = "Token list \<Rightarrow> 'a result"

definition parse_error_message :: "exn \<Rightarrow> string" where
  "parse_error_message e =
    (case e of
       ParseError msg l c \<Rightarrow>
         ''Parse error at line '' @ show_nat l @ '', column '' @ show_nat c @ '': '' @ msg
     | TypeError \<Rightarrow> ''Cannot read properties of undefined'')"

definition return :: "'a \<Rightarrow> 'a parser" where
  "return a ts = Ok a ts"

definition throw :: "exn \<Rightarrow> 'a parser" where
  "throw e ts = Throw e ts"

definition out_of_fuel :: "'a parser" where
  "out_of_fuel ts = OutOfFuel"

text \<open>Sequencing: run \<open>p\<close>, then the rest of the method body on its value.\<close>

definition andThen :: "'a parser \<Rightarrow> ('a \<Rightarrow> 'b parser) \<Rightarrow> 'b parser" where
  "andThen p f ts =
    (case p ts of
       Ok a ts' \<Rightarrow> f a ts'
     | Throw e ts' \<Rightarrow> Throw e ts'
     | OutOfFuel \<Rightarrow> OutOfFuel)"

definition token_pos :: "Token \<Rightarrow> pos" where
  "token_pos t = (tok_line t, tok_column t)"

fun peek :: "Token parser" where
  "peek [] = Throw TypeError []"
| "peek (t # ts) = Ok t (t # ts)"

fun isAtEnd :: "bool parser" where
  "isAtEnd [] = Throw TypeError []"
| "isAtEnd (t # ts) = Ok (tok_type t = EOF) (t # ts)"

fun advance_token :: "unit parser" where
  "advance_token [] = Throw TypeError []"
| "advance_token (t # ts) = (if tok_type t \<noteq> EOF then Ok () ts else Ok () (t # ts))"

fun check :: "TokenType \<Rightarrow> bool parser" where
  "check ty [] = Throw TypeError []"
| "check ty (t # ts) = Ok (tok_type t \<noteq> EOF \<and> tok_type t = ty) (t # ts)"

text \<open>\<open>match\<close> returns the token it consumed, which the caller reads as \<open>previous()\<close>.\<close>

fun match :: "TokenType list \<Rightarrow> Token option parser" where
  "match [] ts = Ok None ts"
| "match (ty # tys) [] = Throw TypeError []"
| "match (ty # tys) (t # ts) =
     (if tok_type t \<noteq> EOF \<and> tok_type t = ty then Ok (Some t) ts else match tys (t # ts))"

fun consume :: "TokenType \<Rightarrow> string \<Rightarrow> Token parser" where
  "consume ty msg [] = Throw TypeError []"
| "consume ty msg (t # ts) =
     (if tok_type t \<noteq> EOF \<and> tok_type t = ty then Ok t ts
      else Throw (ParseError msg (tok_line t) (tok_column t)) (t # ts))"

text \<open>\<open>if (this.match(...)) return p(previous); q\<close>\<close>

definition on_match :: "TokenType list \<Rightarrow> (Token \<Rightarrow> 'a parser) \<Rightarrow> 'a parser \<Rightarrow> 'a parser" where
  "on_match tys p q = andThen (match tys) (\<lambda>m. case m of Some token \<Rightarrow> p token | None \<Rightarrow> q)"

fun expression_pos :: "Expression \<Rightarrow> pos" where
  "expression_pos (Ident i) = ident_pos i"
| "expression_pos (NumberLiteral v p) = p"
| "expression_pos (StringLiteral v p) = p"
| "expression_pos (ColorLiteral v p) = p"
| "expression_pos (BinaryExpression operator left right p) = p"
| "expression_pos (CallExpression callee arguments p) = p"
| "expression_pos (Circle x y sz color p) = p"
| "expression_pos (Rect x y width height color p) = p"
| "expression_pos (Line x1 y1 x2 y2 color p) = p"
| "expression_pos (Triangle points color p) = p"

function expression :: "nat \<Rightarrow> Expression parser"
  and comparison :: "nat \<Rightarrow> Expression parser"
  and comparison_loop :: "nat \<Rightarrow> Expression \<Rightarrow> Expression parser"
  and additive :: "nat \<Rightarrow> Expression parser"
  and additive_loop :: "nat \<Rightarrow> Expression \<Rightarrow> Expression parser"
  and multiplicative :: "nat \<Rightarrow> Expression parser"
  and multiplicative_loop :: "nat \<Rightarrow> Expression \<Rightarrow> Expression parser"
  and call :: "nat \<Rightarrow> Expression parser"
  and call_arguments :: "nat \<Rightarrow> Expression list \<Rightarrow> Expression list parser"
  and shape :: "nat \<Rightarrow> Expression parser"
  and circle :: "nat \<Rightarrow> Token \<Rightarrow> Expression parser"
  and rect :: "nat \<Rightarrow> Token \<Rightarrow> Expression parser"
  and line_shape :: "nat \<Rightarrow> Token \<Rightarrow> Expression parser"
  and triangle :: "nat \<Rightarrow> Token \<Rightarrow> Expression parser"
  and triangle_points ::
    "nat \<Rightarrow> nat \<Rightarrow> (Expression \<times> Expression) list \<Rightarrow> (Expression \<times> Expression) list parser"
  and primary :: "nat \<Rightarrow> Expression parser"
where
  "expression 0 = out_of_fuel"
| "expression (Suc n) = comparison n"
| "comparison 0 = out_of_fuel"
| "comparison (Suc n) = andThen (additive n) (\<lambda>expr. comparison_loop n expr)"
| "comparison_loop 0 expr = out_of_fuel"
| "comparison_loop (Suc n) expr =
     on_match [GREATER_THAN, GREATER_EQUAL, LESS_THAN, LESS_EQUAL, EQUAL, NOT_EQUAL]
       (\<lambda>operator. andThen (additive n) (\<lambda>right.
          comparison_loop n
            (BinaryExpression (tok_value operator) expr right (token_pos operator))))
       (return expr)"
| "additive 0 = out_of_fuel"
| "additive (Suc n) = andThen (multiplicative n) (\<lambda>expr. additive_loop n expr)"
| "additive_loop 0 expr = out_of_fuel"
| "additive_loop (Suc n) expr =
     on_match [PLUS, MINUS]
       (\<lambda>operator. andThen (multiplicative n) (\<lambda>right.
          additive_loop n
            (BinaryExpression (tok_value operator) expr right (token_pos operator))))
       (return expr)"
| "multiplicative 0 = out_of_fuel"
| "multiplicative (Suc n) = andThen (call n) (\<lambda>expr. multiplicative_loop n expr)"
| "multiplicative_loop 0 expr = out_of_fuel"
| "multiplicative_loop (Suc n) expr =
     on_match [MULTIPLY, DIVIDE, MODULO]
       (\<lambda>operator. andThen (call n) (\<lambda>right.
          multiplicative_loop n
            (BinaryExpression (tok_value operator) expr right (token_pos operator))))
       (return expr)"
| "call 0 = out_of_fuel"
| "call (Suc n) =
     andThen (shape n) (\<lambda>expr.
     on_match [LPAREN]
       (\<lambda>_. andThen (check RPAREN) (\<lambda>closed.
            andThen (if \<not> closed then call_arguments n [] else return []) (\<lambda>args.
            andThen (consume RPAREN ''Expected ) after arguments'') (\<lambda>_.
            return (CallExpression expr args (expression_pos expr))))))
       (return expr))"
| "call_arguments 0 args = out_of_fuel"
| "call_arguments (Suc n) args =
     andThen (expression n) (\<lambda>arg.
     on_match [COMMA]
       (\<lambda>_. call_arguments n (args @ [arg]))
       (return (args @ [arg])))"
| "shape 0 = out_of_fuel"
| "shape (Suc n) =
     on_match [CIRCLE] (\<lambda>token. circle n token)
    (on_match [RECT] (\<lambda>token. rect n token)
    (on_match [LINE] (\<lambda>token. line_shape n token)
    (on_match [TRIANGLE] (\<lambda>token. triangle n token)
    (primary n))))"
| "circle 0 token = out_of_fuel"
| \<open>circle (Suc n) token =
     andThen (consume AT ''Expected "at" after circle'') (\<lambda>_.
     andThen (consume LPAREN ''Expected ( for position'') (\<lambda>_.
     andThen (expression n) (\<lambda>x.
     andThen (consume COMMA ''Expected , in position'') (\<lambda>_.
     andThen (expression n) (\<lambda>y.
     andThen (consume RPAREN ''Expected ) after position'') (\<lambda>_.
     andThen (consume SIZE ''Expected "size" keyword'') (\<lambda>_.
     andThen (expression n) (\<lambda>sz.
     andThen (consume COLOR_PROP ''Expected "color" keyword'') (\<lambda>_.
     andThen (expression n) (\<lambda>color.
     return (Circle x y sz color (token_pos token))))))))))))\<close>
| "rect 0 token = out_of_fuel"
| \<open>rect (Suc n) token =
     andThen (consume AT ''Expected "at" after rect'') (\<lambda>_.
     andThen (consume LPAREN ''Expected ( for position'') (\<lambda>_.
     andThen (expression n) (\<lambda>x.
     andThen (consume COMMA ''Expected , in position'') (\<lambda>_.
     andThen (expression n) (\<lambda>y.
     andThen (consume RPAREN ''Expected ) after position'') (\<lambda>_.
     andThen (consume WIDTH ''Expected "width" keyword'') (\<lambda>_.
     andThen (expression n) (\<lambda>width.
     andThen (consume HEIGHT ''Expected "height" keyword'') (\<lambda>_.
     andThen (expression n) (\<lambda>height.
     andThen (consume COLOR_PROP ''Expected "color" keyword'') (\<lambda>_.
     andThen (expression n) (\<lambda>color.
     return (Rect x y width height color (token_pos token))))))))))))))\<close>
| "line_shape 0 token = out_of_fuel"
| \<open>line_shape (Suc n) token =
     andThen (consume LPAREN ''Expected ( for start position'') (\<lambda>_.
     andThen (expression n) (\<lambda>x1.
     andThen (consume COMMA ''Expected , in position'') (\<lambda>_.
     andThen (expression n) (\<lambda>y1.
     andThen (consume RPAREN ''Expected ) after start position'') (\<lambda>_.
     andThen (consume LPAREN ''Expected ( for end position'') (\<lambda>_.
     andThen (expression n) (\<lambda>x2.
     andThen (consume COMMA ''Expected , in position'') (\<lambda>_.
     andThen (expression n) (\<lambda>y2.
     andThen (consume RPAREN ''Expected ) after end position'') (\<lambda>_.
     andThen (consume COLOR_PROP ''Expected "color" keyword'') (\<lambda>_.
     andThen (expression n) (\<lambda>color.
     return (Line x1 y1 x2 y2 color (token_pos token))))))))))))))\<close>
| "triangle 0 token = out_of_fuel"
| \<open>triangle (Suc n) token =
     andThen (triangle_points n 0 []) (\<lambda>points.
     andThen (consume COLOR_PROP ''Expected "color" keyword'') (\<lambda>_.
     andThen (expression n) (\<lambda>color.
     return (Triangle points color (token_pos token)))))\<close>
| "triangle_points 0 i points = out_of_fuel"
| "triangle_points (Suc n) i points =
     (if i < 3 then
        andThen (consume LPAREN ''Expected ( for point'') (\<lambda>_.
        andThen (expression n) (\<lambda>x.
        andThen (consume COMMA ''Expected , in point'') (\<lambda>_.
        andThen (expression n) (\<lambda>y.
        andThen (consume RPAREN ''Expected ) after point'') (\<lambda>_.
        triangle_points n (i + 1) (points @ [(x, y)]))))))
      else return points)"
| "primary 0 = out_of_fuel"
| "primary (Suc n) =
     on_match [NUMBER]
       (\<lambda>token. return (NumberLiteral (ParseFloat (tok_value token)) (token_pos token)))
    (on_match [STRING]
       (\<lambda>token. return (StringLiteral (tok_value token) (token_pos token)))
    (on_match [COLOR]
       (\<lambda>token. return (ColorLiteral (tok_value token) (token_pos token)))
    (on_match [IDENTIFIER]
       (\<lambda>token. return (Ident (Identifier (tok_value token) (token_pos token))))
    (on_match [LPAREN]
       (\<lambda>_. andThen (expression n) (\<lambda>expr.
            andThen (consume RPAREN ''Expected ) after expression'') (\<lambda>_.
            return expr)))
    (andThen peek (\<lambda>token.
       throw (ParseError (''Unexpected token: '' @ tok_value token)
         (tok_line token) (tok_column token))))))))"
  by pat_completeness auto
termination
  by (relation "measure
        (case_sum
          (case_sum
            (case_sum (case_sum id id) (case_sum fst id))
            (case_sum (case_sum fst id) (case_sum fst id)))
          (case_sum
            (case_sum (case_sum fst id) (case_sum fst fst))
            (case_sum (case_sum fst fst) (case_sum fst id))))") auto

subsection \<open>Animation commands and statements\<close>

definition moveCommand :: "nat \<Rightarrow> Token \<Rightarrow> AnimationCommand parser" where
  "moveCommand n token =
     andThen (primary n) (\<lambda>amount.
     on_match [UP, DOWN, LEFT, RIGHT]
       (\<lambda>dir. return (Move amount (toLowerCase (tok_value dir)) (token_pos token)))
       (return (Move amount ''right'' (token_pos token))))"

definition rotateCommand :: "nat \<Rightarrow> Token \<Rightarrow> AnimationCommand parser" where
  "rotateCommand n token =
     andThen (primary n) (\<lambda>angle. return (Rotate angle (token_pos token)))"

definition scaleCommand :: "nat \<Rightarrow> Token \<Rightarrow> AnimationCommand parser" where
  "scaleCommand n token =
     andThen (primary n) (\<lambda>factor. return (Scale factor (token_pos token)))"

definition fadeCommand :: "nat \<Rightarrow> Token \<Rightarrow> AnimationCommand parser" where
  "fadeCommand n token =
     andThen (primary n) (\<lambda>amount. return (Fade amount (token_pos token)))"

fun animate_loop :: "nat \<Rightarrow> AnimationCommand list \<Rightarrow> AnimationCommand list parser" where
  "animate_loop 0 animations = out_of_fuel"
| "animate_loop (Suc n) animations =
     andThen (check RBRACE) (\<lambda>closed.
     andThen isAtEnd (\<lambda>atEnd.
     if \<not> closed \<and> \<not> atEnd then
       on_match [MOVE]
         (\<lambda>token. andThen (moveCommand n token) (\<lambda>c. animate_loop n (animations @ [c])))
      (on_match [ROTATE]
         (\<lambda>token. andThen (rotateCommand n token) (\<lambda>c. animate_loop n (animations @ [c])))
      (on_match [SCALE]
         (\<lambda>token. andThen (scaleCommand n token) (\<lambda>c. animate_loop n (animations @ [c])))
      (on_match [FADE]
         (\<lambda>token. andThen (fadeCommand n token) (\<lambda>c. animate_loop n (animations @ [c])))
      (andThen advance_token (\<lambda>_. animate_loop n animations)))))
     else return animations))"

definition animateBlock :: "nat \<Rightarrow> Token \<Rightarrow> Statement parser" where
  "animateBlock n token =
     andThen (consume LBRACE ''Expected { after animate'') (\<lambda>_.
     andThen (animate_loop n []) (\<lambda>animations.
     andThen (consume RBRACE ''Expected } after animate block'') (\<lambda>_.
     return (AnimateBlock animations (token_pos token)))))"

definition letStatement :: "nat \<Rightarrow> Token \<Rightarrow> Statement parser" where
  "letStatement n token =
     andThen (consume IDENTIFIER ''Expected variable name'') (\<lambda>nm.
     andThen (consume ASSIGN ''Expected = after variable name'') (\<lambda>_.
     andThen (expression n) (\<lambda>v.
     return (LetStatement (Identifier (tok_value nm) (token_pos nm)) v (token_pos token)))))"

definition returnStatement :: "nat \<Rightarrow> Token \<Rightarrow> Statement parser" where
  "returnStatement n token =
     andThen isAtEnd (\<lambda>atEnd.
     andThen peek (\<lambda>next.
     if \<not> atEnd \<and> tok_type next \<noteq> RBRACE then
       andThen (expression n) (\<lambda>v. return (ReturnStatement (Some v) (token_pos token)))
     else return (ReturnStatement None (token_pos token))))"

definition expressionStatement :: "nat \<Rightarrow> Statement parser" where
  "expressionStatement n =
     andThen (expression n) (\<lambda>expr.
     return (ExpressionStatement expr (expression_pos expr)))"

text \<open>The \<open>do \<dots> while (this.match(TokenType.COMMA))\<close> loop over the parameters.\<close>

fun parameter_list :: "nat \<Rightarrow> Identifier list \<Rightarrow> Identifier list parser" where
  "parameter_list 0 parameters = out_of_fuel"
| "parameter_list (Suc n) parameters =
     andThen (consume IDENTIFIER ''Expected parameter name'') (\<lambda>param.
     on_match [COMMA]
       (\<lambda>_. parameter_list n (parameters @ [Identifier (tok_value param) (token_pos param)]))
       (return (parameters @ [Identifier (tok_value param) (token_pos param)])))"

text \<open>
  \<open>block\<close> is the loop \<open>while (!this.check(TokenType.RBRACE) && !this.isAtEnd())\<close> that
  reads the statements of a body; the source writes it out in five places.
\<close>

function statement :: "nat \<Rightarrow> Statement parser"
  and block :: "nat \<Rightarrow> Statement list \<Rightarrow> Statement list parser"
  and functionDeclaration :: "nat \<Rightarrow> Token \<Rightarrow> Statement parser"
  and ifStatement :: "nat \<Rightarrow> Token \<Rightarrow> Statement parser"
  and repeatStatement :: "nat \<Rightarrow> Token \<Rightarrow> Statement parser"
  and sceneBlock :: "nat \<Rightarrow> Token \<Rightarrow> Statement parser"
where
  "statement 0 = out_of_fuel"
| "statement (Suc n) =
     on_match [LET] (\<lambda>token. letStatement n token)
    (on_match [FN] (\<lambda>token. functionDeclaration n token)
    (on_match [RETURN] (\<lambda>token. returnStatement n token)
    (on_match [IF] (\<lambda>token. ifStatement n token)
    (on_match [REPEAT] (\<lambda>token. repeatStatement n token)
    (on_match [ANIMATE] (\<lambda>token. animateBlock n token)
    (on_match [SCENE] (\<lambda>token. sceneBlock n token)
    (expressionStatement n)))))))"
| "block 0 stmts = out_of_fuel"
| "block (Suc n) stmts =
     andThen (check RBRACE) (\<lambda>closed.
     andThen isAtEnd (\<lambda>atEnd.
     if \<not> closed \<and> \<not> atEnd then
       andThen (statement n) (\<lambda>stmt. block n (stmts @ [stmt]))
     else return stmts))"
| "functionDeclaration 0 token = out_of_fuel"
| "functionDeclaration (Suc n) token =
     andThen (consume IDENTIFIER ''Expected function name'') (\<lambda>nm.
     andThen (consume LPAREN ''Expected ( after function name'') (\<lambda>_.
     andThen (check RPAREN) (\<lambda>closed.
     andThen (if \<not> closed then parameter_list n [] else return []) (\<lambda>parameters.
     andThen (consume RPAREN ''Expected ) after parameters'') (\<lambda>_.
     andThen (consume LBRACE ''Expected { before function body'') (\<lambda>_.
     andThen (block n []) (\<lambda>stmts.
     andThen (consume RBRACE ''Expected } after function body'') (\<lambda>_.
     return (FunctionDeclaration (Identifier (tok_value nm) (token_pos nm))
       parameters stmts (token_pos token))))))))))"
| "ifStatement 0 token = out_of_fuel"
| "ifStatement (Suc n) token =
     andThen (expression n) (\<lambda>condition.
     andThen (consume LBRACE ''Expected { after if condition'') (\<lambda>_.
     andThen (block n []) (\<lambda>thenBranch.
     andThen (consume RBRACE ''Expected } after if body'') (\<lambda>_.
     on_match [ELSE]
       (\<lambda>_. andThen (consume LBRACE ''Expected { after else'') (\<lambda>_.
            andThen (block n []) (\<lambda>elseBranch.
            andThen (consume RBRACE ''Expected } after else body'') (\<lambda>_.
            return (IfStatement condition thenBranch (Some elseBranch) (token_pos token))))))
       (return (IfStatement condition thenBranch None (token_pos token)))))))"
| "repeatStatement 0 token = out_of_fuel"
| "repeatStatement (Suc n) token =
     andThen (expression n) (\<lambda>count.
     andThen (consume LBRACE ''Expected { after repeat count'') (\<lambda>_.
     andThen (block n []) (\<lambda>stmts.
     andThen (consume RBRACE ''Expected } after repeat body'') (\<lambda>_.
     return (RepeatStatement count stmts (token_pos token))))))"
| "sceneBlock 0 token = out_of_fuel"
| "sceneBlock (Suc n) token =
     andThen (consume IDENTIFIER ''Expected scene name'') (\<lambda>nm.
     andThen (consume LBRACE ''Expected { after scene name'') (\<lambda>_.
     andThen (block n []) (\<lambda>stmts.
     andThen (consume RBRACE ''Expected } after scene body'') (\<lambda>_.
     return (SceneBlock (tok_value nm) stmts (token_pos token))))))"
  by pat_completeness auto
termination
  by (relation "measure
        (case_sum (case_sum id (case_sum fst fst)) (case_sum fst (case_sum fst fst)))") auto

subsection \<open>Error recovery and the parse loop\<close>

definition starts_statement :: "TokenType \<Rightarrow> bool" where
  "starts_statement ty \<longleftrightarrow> ty \<in> {LET, FN, IF, REPEAT, ANIMATE, SCENE, RETURN}"

text \<open>
  The \<open>while\<close> loop of \<open>synchronize\<close>; \<open>prev\<close> is \<open>previous()\<close>, the token the last
  \<open>advance()\<close> went over.
\<close>

fun synchronize_loop :: "Token \<Rightarrow> unit parser" where
  "synchronize_loop prev [] = Throw TypeError []"
| "synchronize_loop prev (t # ts) =
     (if tok_type t = EOF then Ok () (t # ts)
      else if tok_type prev = NEWLINE then Ok () (t # ts)
      else if starts_statement (tok_type t) then Ok () (t # ts)
      else synchronize_loop t ts)"

fun synchronize :: "unit parser" where
  "synchronize [] = Throw TypeError []"
| "synchronize (t # ts) =
     (if tok_type t = EOF then Ok () (t # ts) else synchronize_loop t ts)"

text \<open>
  \<open>try { ... } catch (error) { if (error instanceof ParseError) ... else throw error }\<close>:
  a \<open>ParseError\<close> of the body becomes a value, together with the position the parser
  had reached when it was thrown.
\<close>

definition attempt :: "'a parser \<Rightarrow> (exn + 'a) parser" where
  "attempt p ts =
    (case p ts of
       Ok a ts' \<Rightarrow> Ok (Inr a) ts'
     | Throw (ParseError msg l c) ts' \<Rightarrow> Ok (Inl (ParseError msg l c)) ts'
     | Throw TypeError ts' \<Rightarrow> Throw TypeError ts'
     | OutOfFuel \<Rightarrow> OutOfFuel)"

text \<open>
  The loop of \<open>parse\<close>. \<open>console\<close> collects the lines written with \<open>console.error\<close>;
  the parser keeps no list of errors of its own.
\<close>

fun parse_loop :: "nat \<Rightarrow> Statement list \<Rightarrow> string list \<Rightarrow> (Statement list \<times> string list) parser"
where
  "parse_loop 0 statements console = out_of_fuel"
| "parse_loop (Suc n) statements console =
     andThen isAtEnd (\<lambda>atEnd.
     if \<not> atEnd then
       andThen (attempt (statement n)) (\<lambda>r.
         case r of
           Inr stmt \<Rightarrow> parse_loop n (statements @ [stmt]) console
         | Inl error \<Rightarrow>
             andThen synchronize (\<lambda>_.
             parse_loop n statements (console @ [parse_error_message error])))
     else return (statements, console))"

definition parse :: "nat \<Rightarrow> (Program \<times> string list) parser" where
  "parse n =
     andThen (parse_loop n [] []) (\<lambda>(statements, console).
     return (Program statements (1, 1), console))"

section \<open>Compiler facade (index.ts)\<close>

datatype CompilationResult = Success string | Failure "string list"

text \<open>
  \<open>compile\<close>. The result is \<open>None\<close> when the parser runs out of fuel. An exception that
  reaches the \<open>catch\<close> becomes a failure holding its message.
\<close>

definition compile :: "(js_number \<Rightarrow> string) \<Rightarrow> nat \<Rightarrow> string \<Rightarrow> CompilationResult option" where
  "compile numberToString fuel sourceCode =
    (let tokens = tokenize sourceCode in
     case parse fuel tokens of
       OutOfFuel \<Rightarrow> None
     | Throw e ts \<Rightarrow> Some (Failure [parse_error_message e])
     | Ok (ast, console) ts \<Rightarrow>
        (case analyze ast newSemanticAnalyzer of
           None \<Rightarrow> Some (Failure [parse_error_message TypeError])
         | Some semanticErrors \<Rightarrow>
            if length semanticErrors > 0 then Some (Failure (map message semanticErrors))
            else Some (Success (generate numberToString ast newCodeGenerator))))"

subsection \<open>Facts about the expression grammar\<close>

definition comparison_operators :: "TokenType list" where
  "comparison_operators =
     [GREATER_THAN, GREATER_EQUAL, LESS_THAN, LESS_EQUAL, EQUAL, NOT_EQUAL]"

lemma match_Cons_simps:
  "tok_type t \<in> set tys \<Longrightarrow> tok_type t \<noteq> EOF \<Longrightarrow> match tys (t # ts) = Ok (Some t) ts"
  "tok_type t \<notin> set tys \<Longrightarrow> match tys (t # ts) = Ok None (t # ts)"
  "tok_type t = EOF \<Longrightarrow> match tys (t # ts) = Ok None (t # ts)"
  by (induction tys) auto

lemma comparison_loop_step:
  assumes "tok_type op \<in> set comparison_operators"
    and "additive n ts = Ok right ts'"
  shows "comparison_loop (Suc n) expr (op # ts) =
     comparison_loop n (BinaryExpression (tok_value op) expr right (token_pos op)) ts'"
proof -
  from assms(1) have "tok_type op \<noteq> EOF" by (auto simp: comparison_operators_def)
  with assms(1) have "match comparison_operators (op # ts) = Ok (Some op) ts"
    by (rule match_Cons_simps)
  with assms(2) show ?thesis
    by (simp add: on_match_def andThen_def comparison_operators_def del: match.simps)
qed

lemma comparison_loop_stop:
  assumes "tok_type t \<notin> set comparison_operators"
  shows "comparison_loop (Suc n) expr (t # ts) = Ok expr (t # ts)"
proof -
  from assms have "match comparison_operators (t # ts) = Ok None (t # ts)"
    by (rule match_Cons_simps)
  then show ?thesis
    by (simp add: on_match_def andThen_def return_def comparison_operators_def
        del: match.simps)
qed

subsection \<open>More fuel never changes a result\<close>

text \<open>
  \<open>le_parser p q\<close>: wherever \<open>p\<close> does not run out of fuel, \<open>q\<close> returns the same result.
\<close>

definition le_parser :: "'a parser \<Rightarrow> 'a parser \<Rightarrow> bool" where
  "le_parser p q \<longleftrightarrow> (\<forall>ts. p ts = OutOfFuel \<or> p ts = q ts)"

lemma le_parser_refl: "le_parser p p"
  by (simp add: le_parser_def)

lemma le_parser_out_of_fuel: "le_parser out_of_fuel p"
  by (simp add: le_parser_def out_of_fuel_def)

lemma le_parserD: "le_parser p q \<Longrightarrow> p ts \<noteq> OutOfFuel \<Longrightarrow> q ts = p ts"
  by (auto simp: le_parser_def)

lemma andThen_mono:
  assumes "le_parser p p'" and "\<And>a. le_parser (f a) (f' a)"
  shows "le_parser (andThen p f) (andThen p' f')"
  unfolding le_parser_def
proof
  fix ts
  show "andThen p f ts = OutOfFuel \<or> andThen p f ts = andThen p' f' ts"
  proof (cases "p ts")
    case (Ok a ts')
    with le_parserD [OF assms(1), of ts] have "p' ts = Ok a ts'" by simp
    with Ok assms(2) [of a] show ?thesis by (auto simp: andThen_def le_parser_def)
  next
    case (Throw e ts')
    with le_parserD [OF assms(1), of ts] have "p' ts = Throw e ts'" by simp
    with Throw show ?thesis by (simp add: andThen_def)
  next
    case OutOfFuel
    then show ?thesis by (simp add: andThen_def)
  qed
qed

lemma on_match_mono:
  assumes "\<And>t. le_parser (p t) (p' t)" and "le_parser q q'"
  shows "le_parser (on_match tys p q) (on_match tys p' q')"
  unfolding on_match_def
  by (rule andThen_mono [OF le_parser_refl]) (auto split: option.splits intro: assms)

lemma if_mono:
  assumes "le_parser p p'" and "le_parser q q'"
  shows "le_parser (if b then p else q) (if b then p' else q')"
  using assms by simp

lemma case_sum_mono:
  assumes "\<And>x. le_parser (f x) (f' x)" and "\<And>y. le_parser (g y) (g' y)"
  shows "le_parser (case_sum f g s) (case_sum f' g' s)"
  using assms by (cases s) simp_all

lemma attempt_mono:
  assumes "le_parser p p'"
  shows "le_parser (attempt p) (attempt p')"
  unfolding le_parser_def
proof
  fix ts
  from assms have "p ts = OutOfFuel \<or> p ts = p' ts" by (simp add: le_parser_def)
  then show "attempt p ts = OutOfFuel \<or> attempt p ts = attempt p' ts"
    by (auto simp: attempt_def)
qed

lemmas mono_rules =
  le_parser_refl andThen_mono on_match_mono if_mono case_sum_mono attempt_mono

text \<open>The sixteen methods of the expression grammar, compared at two amounts of fuel.\<close>

definition le_expression_grammar :: "nat \<Rightarrow> nat \<Rightarrow> bool" where
  "le_expression_grammar n m \<longleftrightarrow>
     le_parser (expression n) (expression m) \<and>
     le_parser (comparison n) (comparison m) \<and>
     (\<forall>e. le_parser (comparison_loop n e) (comparison_loop m e)) \<and>
     le_parser (additive n) (additive m) \<and>
     (\<forall>e. le_parser (additive_loop n e) (additive_loop m e)) \<and>
     le_parser (multiplicative n) (multiplicative m) \<and>
     (\<forall>e. le_parser (multiplicative_loop n e) (multiplicative_loop m e)) \<and>
     le_parser (call n) (call m) \<and>
     (\<forall>args. le_parser (call_arguments n args) (call_arguments m args)) \<and>
     le_parser (shape n) (shape m) \<and>
     (\<forall>t. le_parser (circle n t) (circle m t)) \<and>
     (\<forall>t. le_parser (rect n t) (rect m t)) \<and>
     (\<forall>t. le_parser (line_shape n t) (line_shape m t)) \<and>
     (\<forall>t. le_parser (triangle n t) (triangle m t)) \<and>
     (\<forall>i ps. le_parser (triangle_points n i ps) (triangle_points m i ps)) \<and>
     le_parser (primary n) (primary m)"

lemma le_expression_grammar_0: "le_expression_grammar 0 m"
  by (simp add: le_expression_grammar_def le_parser_out_of_fuel)

lemma le_expression_grammar_Suc:
  assumes "le_expression_grammar n m"
  shows "le_expression_grammar (Suc n) (Suc m)"
proof -
  from assms have IH:
    "le_parser (expression n) (expression m)"
    "le_parser (comparison n) (comparison m)"
    "\<And>e. le_parser (comparison_loop n e) (comparison_loop m e)"
    "le_parser (additive n) (additive m)"
    "\<And>e. le_parser (additive_loop n e) (additive_loop m e)"
    "le_parser (multiplicative n) (multiplicative m)"
    "\<And>e. le_parser (multiplicative_loop n e) (multiplicative_loop m e)"
    "le_parser (call n) (call m)"
    "\<And>args. le_parser (call_arguments n args) (call_arguments m args)"
    "le_parser (shape n) (shape m)"
    "\<And>t. le_parser (circle n t) (circle m t)"
    "\<And>t. le_parser (rect n t) (rect m t)"
    "\<And>t. le_parser (line_shape n t) (line_shape m t)"
    "\<And>t. le_parser (triangle n t) (triangle m t)"
    "\<And>i ps. le_parser (triangle_points n i ps) (triangle_points m i ps)"
    "le_parser (primary n) (primary m)"
    by (simp_all add: le_expression_grammar_def)
  note rules = IH mono_rules
  show ?thesis
    unfolding le_expression_grammar_def
    by (intro conjI allI; simp only: expression.simps comparison.simps comparison_loop.simps
        additive.simps additive_loop.simps multiplicative.simps multiplicative_loop.simps
        call.simps call_arguments.simps shape.simps circle.simps rect.simps line_shape.simps
        triangle.simps triangle_points.simps primary.simps; intro rules)
qed

lemma le_expression_grammar: "n \<le> m \<Longrightarrow> le_expression_grammar n m"
proof (induction n arbitrary: m)
  case 0
  show ?case by (rule le_expression_grammar_0)
next
  case (Suc n)
  then obtain m' where "m = Suc m'" and "n \<le> m'" by (cases m) auto
  with Suc.IH show ?case by (simp add: le_expression_grammar_Suc)
qed

lemma expression_mono: "n \<le> m \<Longrightarrow> le_parser (expression n) (expression m)"
  and primary_mono: "n \<le> m \<Longrightarrow> le_parser (primary n) (primary m)"
  using le_expression_grammar [of n m] by (simp_all add: le_expression_grammar_def)

lemma command_mono:
  assumes "n \<le> m"
  shows "le_parser (moveCommand n t) (moveCommand m t)"
    and "le_parser (rotateCommand n t) (rotateCommand m t)"
    and "le_parser (scaleCommand n t) (scaleCommand m t)"
    and "le_parser (fadeCommand n t) (fadeCommand m t)"
  unfolding moveCommand_def rotateCommand_def scaleCommand_def fadeCommand_def
  by (intro mono_rules primary_mono [OF assms])+

lemma animate_loop_mono:
  "n \<le> m \<Longrightarrow> le_parser (animate_loop n animations) (animate_loop m animations)"
proof (induction n arbitrary: m animations)
  case 0
  show ?case by (simp add: le_parser_out_of_fuel)
next
  case (Suc n)
  then obtain m' where m: "m = Suc m'" and le: "n \<le> m'" by (cases m) auto
  note rules = Suc.IH [OF le] command_mono [OF le] mono_rules
  show ?case
    unfolding m by (simp only: animate_loop.simps) (intro rules)
qed

lemma simple_statement_mono:
  assumes "n \<le> m"
  shows "le_parser (animateBlock n t) (animateBlock m t)"
    and "le_parser (letStatement n t) (letStatement m t)"
    and "le_parser (returnStatement n t) (returnStatement m t)"
    and "le_parser (expressionStatement n) (expressionStatement m)"
  unfolding animateBlock_def letStatement_def returnStatement_def expressionStatement_def
  by (intro mono_rules expression_mono [OF assms] animate_loop_mono [OF assms])+

lemma parameter_list_mono:
  "n \<le> m \<Longrightarrow> le_parser (parameter_list n parameters) (parameter_list m parameters)"
proof (induction n arbitrary: m parameters)
  case 0
  show ?case by (simp add: le_parser_out_of_fuel)
next
  case (Suc n)
  then obtain m' where m: "m = Suc m'" and le: "n \<le> m'" by (cases m) auto
  note rules = Suc.IH [OF le] mono_rules
  show ?case
    unfolding m by (simp only: parameter_list.simps) (intro rules)
qed

definition le_statement_grammar :: "nat \<Rightarrow> nat \<Rightarrow> bool" where
  "le_statement_grammar n m \<longleftrightarrow>
     le_parser (statement n) (statement m) \<and>
     (\<forall>stmts. le_parser (block n stmts) (block m stmts)) \<and>
     (\<forall>t. le_parser (functionDeclaration n t) (functionDeclaration m t)) \<and>
     (\<forall>t. le_parser (ifStatement n t) (ifStatement m t)) \<and>
     (\<forall>t. le_parser (repeatStatement n t) (repeatStatement m t)) \<and>
     (\<forall>t. le_parser (sceneBlock n t) (sceneBlock m t))"

lemma le_statement_grammar_Suc:
  assumes "le_statement_grammar n m" and le: "n \<le> m"
  shows "le_statement_grammar (Suc n) (Suc m)"
proof -
  from assms(1) have IH:
    "le_parser (statement n) (statement m)"
    "\<And>stmts. le_parser (block n stmts) (block m stmts)"
    "\<And>t. le_parser (functionDeclaration n t) (functionDeclaration m t)"
    "\<And>t. le_parser (ifStatement n t) (ifStatement m t)"
    "\<And>t. le_parser (repeatStatement n t) (repeatStatement m t)"
    "\<And>t. le_parser (sceneBlock n t) (sceneBlock m t)"
    by (simp_all add: le_statement_grammar_def)
  note rules = IH simple_statement_mono [OF le] parameter_list_mono [OF le]
    expression_mono [OF le] mono_rules
  show ?thesis
    unfolding le_statement_grammar_def
    by (intro conjI allI; simp only: statement.simps block.simps functionDeclaration.simps
        ifStatement.simps repeatStatement.simps sceneBlock.simps; intro rules)
qed

lemma le_statement_grammar: "n \<le> m \<Longrightarrow> le_statement_grammar n m"
proof (induction n arbitrary: m)
  case 0
  show ?case by (simp add: le_statement_grammar_def le_parser_out_of_fuel)
next
  case (Suc n)
  then obtain m' where "m = Suc m'" and "n \<le> m'" by (cases m) auto
  with Suc.IH show ?case by (simp add: le_statement_grammar_Suc)
qed

lemma statement_mono: "n \<le> m \<Longrightarrow> le_parser (statement n) (statement m)"
  using le_statement_grammar [of n m] by (simp add: le_statement_grammar_def)

lemma parse_loop_mono:
  "n \<le> m \<Longrightarrow> le_parser (parse_loop n statements console) (parse_loop m statements console)"
proof (induction n arbitrary: m statements console)
  case 0
  show ?case by (simp add: le_parser_out_of_fuel)
next
  case (Suc n)
  then obtain m' where m: "m = Suc m'" and le: "n \<le> m'" by (cases m) auto
  note rules = Suc.IH [OF le] statement_mono [OF le] mono_rules
  show ?case
    unfolding m by (simp only: parse_loop.simps) (intro rules)
qed

lemma parse_mono: "n \<le> m \<Longrightarrow> le_parser (parse n) (parse m)"
  unfolding parse_def by (intro mono_rules parse_loop_mono)

lemma parse_more_fuel:
  assumes "parse n ts \<noteq> OutOfFuel" and "n \<le> m"
  shows "parse m ts = parse n ts"
  using le_parserD [OF parse_mono [OF assms(2)] assms(1)] .

lemma compile_more_fuel:
  assumes "compile numberToString n sourceCode = Some r" and "n \<le> m"
  shows "compile numberToString m sourceCode = Some r"
proof -
  from assms(1) have "parse n (tokenize sourceCode) \<noteq> OutOfFuel"
    by (auto simp: compile_def Let_def)
  then have "parse m (tokenize sourceCode) = parse n (tokenize sourceCode)"
    using assms(2) by (rule parse_more_fuel)
  with assms(1) show ?thesis by (simp add: compile_def)
qed

lemma generate_resets: "generate numberToString program g = generate numberToString program g'"
proof -
  have "g\<lparr>output_text := [], indent := 0\<rparr> = g'\<lparr>output_text := [], indent := 0\<rparr>"
    by (cases g, cases g') simp
  then show ?thesis unfolding generate_def by (simp only: steps.simps)
qed

subsection \<open>The parser on the token sequences of the lexer\<close>

text \<open>
  A token sequence that ends in an end-of-input token, as \<open>tokenize\<close> returns it. On
  such a sequence no method reads behind the array: the position it returns or throws at
  is again such a sequence, no longer than the one it started from, and the exception is
  never the \<open>TypeError\<close>.
\<close>

definition wf_tokens :: "Token list \<Rightarrow> bool" where
  "wf_tokens ts \<longleftrightarrow> ts \<noteq> [] \<and> tok_type (last ts) = EOF"

definition good :: "'a parser \<Rightarrow> bool" where
  "good p \<longleftrightarrow>
     (\<forall>ts. wf_tokens ts \<longrightarrow>
        (case p ts of
           Ok a ts' \<Rightarrow> wf_tokens ts' \<and> length ts' \<le> length ts
         | Throw e ts' \<Rightarrow> e \<noteq> TypeError \<and> wf_tokens ts' \<and> length ts' \<le> length ts
         | OutOfFuel \<Rightarrow> True))"

text \<open>\<open>strict p\<close>: moreover, when \<open>p\<close> returns it has consumed at least one token.\<close>

definition strict :: "'a parser \<Rightarrow> bool" where
  "strict p \<longleftrightarrow>
     good p \<and> (\<forall>ts a ts'. wf_tokens ts \<longrightarrow> p ts = Ok a ts' \<longrightarrow> length ts' < length ts)"

lemma strict_good: "strict p \<Longrightarrow> good p"
  by (simp add: strict_def)

lemma wf_tokens_Cons: "wf_tokens (t # ts) \<Longrightarrow> tok_type t \<noteq> EOF \<Longrightarrow> wf_tokens ts"
  by (cases ts) (auto simp: wf_tokens_def)

lemma wf_tokens_Nil [simp]: "\<not> wf_tokens []"
  by (simp add: wf_tokens_def)

lemma goodI:
  assumes "\<And>ts a ts'. wf_tokens ts \<Longrightarrow> p ts = Ok a ts' \<Longrightarrow>
      wf_tokens ts' \<and> length ts' \<le> length ts"
    and "\<And>ts e ts'. wf_tokens ts \<Longrightarrow> p ts = Throw e ts' \<Longrightarrow>
      e \<noteq> TypeError \<and> wf_tokens ts' \<and> length ts' \<le> length ts"
  shows "good p"
  unfolding good_def
proof (intro allI impI)
  fix ts assume wf: "wf_tokens ts"
  show "case p ts of
      Ok a ts' \<Rightarrow> wf_tokens ts' \<and> length ts' \<le> length ts
    | Throw e ts' \<Rightarrow> e \<noteq> TypeError \<and> wf_tokens ts' \<and> length ts' \<le> length ts
    | OutOfFuel \<Rightarrow> True"
  proof (cases "p ts")
    case (Ok a ts')
    with assms(1) [OF wf Ok] show ?thesis by simp
  next
    case (Throw e ts')
    with assms(2) [OF wf Throw] show ?thesis by simp
  next
    case OutOfFuel
    then show ?thesis by simp
  qed
qed

lemma goodD_Ok:
  assumes "good p" and "wf_tokens ts" and "p ts = Ok a ts'"
  shows "wf_tokens ts' \<and> length ts' \<le> length ts"
proof -
  from assms(1,2) have "case p ts of
      Ok a ts' \<Rightarrow> wf_tokens ts' \<and> length ts' \<le> length ts
    | Throw e ts' \<Rightarrow> e \<noteq> TypeError \<and> wf_tokens ts' \<and> length ts' \<le> length ts
    | OutOfFuel \<Rightarrow> True"
    unfolding good_def by blast
  then show ?thesis by (simp add: assms(3))
qed

lemma goodD_Throw:
  assumes "good p" and "wf_tokens ts" and "p ts = Throw e ts'"
  shows "e \<noteq> TypeError \<and> wf_tokens ts' \<and> length ts' \<le> length ts"
proof -
  from assms(1,2) have "case p ts of
      Ok a ts' \<Rightarrow> wf_tokens ts' \<and> length ts' \<le> length ts
    | Throw e ts' \<Rightarrow> e \<noteq> TypeError \<and> wf_tokens ts' \<and> length ts' \<le> length ts
    | OutOfFuel \<Rightarrow> True"
    unfolding good_def by blast
  then show ?thesis by (simp add: assms(3))
qed

lemma strictD:
  "strict p \<Longrightarrow> wf_tokens ts \<Longrightarrow> p ts = Ok a ts' \<Longrightarrow> length ts' < length ts"
  unfolding strict_def by blast

lemma good_return: "good (return a)"
  by (rule goodI) (simp_all add: return_def)

lemma good_out_of_fuel: "good out_of_fuel"
  by (rule goodI) (simp_all add: out_of_fuel_def)

lemma strict_out_of_fuel: "strict out_of_fuel"
  by (simp add: strict_def good_out_of_fuel) (simp add: out_of_fuel_def)

lemma strict_throw: "strict (throw (ParseError msg l c))"
  unfolding strict_def by (auto intro!: goodI simp: throw_def)

lemma good_peek: "good peek"
  by (rule goodI; case_tac ts) auto

lemma good_isAtEnd: "good isAtEnd"
  by (rule goodI; case_tac ts) auto

lemma good_check: "good (check ty)"
  by (rule goodI; case_tac ts) auto

lemma good_advance_token: "good advance_token"
  by (rule goodI; case_tac ts) (auto split: if_splits dest: wf_tokens_Cons)

lemma match_cases:
  "match tys (t # ts) = Ok None (t # ts) \<or>
   (tok_type t \<noteq> EOF \<and> match tys (t # ts) = Ok (Some t) ts)"
  by (induction tys) auto

lemma good_match: "good (match tys)"
proof (rule goodI)
  fix ts a ts' assume wf: "wf_tokens ts" and r: "match tys ts = Ok a ts'"
  from wf obtain t ts0 where ts: "ts = t # ts0" by (cases ts) (auto simp: wf_tokens_def)
  from match_cases [of tys t ts0] r wf
  show "wf_tokens ts' \<and> length ts' \<le> length ts"
    unfolding ts by (auto dest: wf_tokens_Cons)
next
  fix ts e ts' assume wf: "wf_tokens ts" and r: "match tys ts = Throw e ts'"
  from wf obtain t ts0 where ts: "ts = t # ts0" by (cases ts) (auto simp: wf_tokens_def)
  from match_cases [of tys t ts0] r
  show "e \<noteq> TypeError \<and> wf_tokens ts' \<and> length ts' \<le> length ts"
    unfolding ts by auto
qed

lemma strict_consume: "strict (consume ty msg)"
  unfolding strict_def
proof (intro conjI allI impI)
  show "good (consume ty msg)"
    by (rule goodI; case_tac ts) (auto split: if_splits dest: wf_tokens_Cons)
next
  fix ts a ts' assume "wf_tokens ts" and "consume ty msg ts = Ok a ts'"
  then show "length ts' < length ts"
    by (cases ts) (auto split: if_splits)
qed

lemma good_andThen:
  assumes "good p" and "\<And>a. good (f a)"
  shows "good (andThen p f)"
proof (rule goodI)
  fix ts a ts' assume wf: "wf_tokens ts" and r: "andThen p f ts = Ok a ts'"
  then obtain b ts1 where p: "p ts = Ok b ts1" and f: "f b ts1 = Ok a ts'"
    by (auto simp: andThen_def split: result.splits)
  from goodD_Ok [OF assms(1) wf p] goodD_Ok [OF assms(2) _ f]
  show "wf_tokens ts' \<and> length ts' \<le> length ts" by auto
next
  fix ts e ts' assume wf: "wf_tokens ts" and r: "andThen p f ts = Throw e ts'"
  then consider (a) "p ts = Throw e ts'"
    | (b) b ts1 where "p ts = Ok b ts1" "f b ts1 = Throw e ts'"
    by (auto simp: andThen_def split: result.splits)
  then show "e \<noteq> TypeError \<and> wf_tokens ts' \<and> length ts' \<le> length ts"
  proof cases
    case a
    from goodD_Throw [OF assms(1) wf a] show ?thesis .
  next
    case b
    from goodD_Ok [OF assms(1) wf b(1)] goodD_Throw [OF assms(2) _ b(2)]
    show ?thesis by auto
  qed
qed

lemma strict_andThen:
  assumes "strict p" and "\<And>a. good (f a)"
  shows "strict (andThen p f)"
  unfolding strict_def
proof (intro conjI allI impI)
  show "good (andThen p f)"
    by (rule good_andThen [OF strict_good [OF assms(1)] assms(2)])
next
  fix ts a ts' assume wf: "wf_tokens ts" and r: "andThen p f ts = Ok a ts'"
  then obtain b ts1 where p: "p ts = Ok b ts1" and f: "f b ts1 = Ok a ts'"
    by (auto simp: andThen_def split: result.splits)
  from strictD [OF assms(1) wf p] goodD_Ok [OF strict_good [OF assms(1)] wf p]
    goodD_Ok [OF assms(2) _ f]
  show "length ts' < length ts" by auto
qed

lemma strict_andThen_good:
  assumes "good p" and "\<And>a. strict (f a)"
  shows "strict (andThen p f)"
  unfolding strict_def
proof (intro conjI allI impI)
  show "good (andThen p f)"
    by (rule good_andThen [OF assms(1) strict_good [OF assms(2)]])
next
  fix ts a ts' assume wf: "wf_tokens ts" and r: "andThen p f ts = Ok a ts'"
  then obtain b ts1 where p: "p ts = Ok b ts1" and f: "f b ts1 = Ok a ts'"
    by (auto simp: andThen_def split: result.splits)
  from goodD_Ok [OF assms(1) wf p] strictD [OF assms(2) _ f]
  show "length ts' < length ts" by auto
qed

lemma good_on_match:
  assumes "\<And>t. good (p t)" and "good q"
  shows "good (on_match tys p q)"
  unfolding on_match_def
  by (rule good_andThen [OF good_match]) (auto split: option.splits intro: assms)

lemma strict_on_match:
  assumes "\<And>t. good (p t)" and "strict q"
  shows "strict (on_match tys p q)"
  unfolding strict_def
proof (intro conjI allI impI)
  show "good (on_match tys p q)"
    by (rule good_on_match [OF assms(1) strict_good [OF assms(2)]])
next
  fix ts a ts' assume wf: "wf_tokens ts" and r: "on_match tys p q ts = Ok a ts'"
  from wf obtain t ts0 where ts: "ts = t # ts0" by (cases ts) (auto simp: wf_tokens_def)
  from match_cases [of tys t ts0]
  show "length ts' < length ts"
  proof
    assume "match tys (t # ts0) = Ok None (t # ts0)"
    with r have "q ts = Ok a ts'" by (simp add: on_match_def andThen_def ts)
    from strictD [OF assms(2) wf this] show ?thesis .
  next
    assume m: "tok_type t \<noteq> EOF \<and> match tys (t # ts0) = Ok (Some t) ts0"
    with r have "p t ts0 = Ok a ts'" by (simp add: on_match_def andThen_def ts)
    moreover have "wf_tokens ts0" using wf m unfolding ts by (auto dest: wf_tokens_Cons)
    ultimately have "length ts' \<le> length ts0" using goodD_Ok [OF assms(1)] by blast
    then show ?thesis by (simp add: ts)
  qed
qed

lemma good_if: "good p \<Longrightarrow> good q \<Longrightarrow> good (if b then p else q)"
  by simp

lemma good_case_sum:
  "(\<And>x. good (f x)) \<Longrightarrow> (\<And>y. good (g y)) \<Longrightarrow> good (case_sum f g s)"
  by (cases s) simp_all

lemma good_case_prod: "(\<And>x y. good (f x y)) \<Longrightarrow> good (case_prod f z)"
  by (cases z) simp

lemma good_attempt:
  assumes "good p" shows "good (attempt p)"
proof (rule goodI)
  fix ts a ts' assume wf: "wf_tokens ts" and r: "attempt p ts = Ok a ts'"
  then consider (ok) b where "p ts = Ok b ts'" | (err) msg l c where "p ts = Throw (ParseError msg l c) ts'"
    by (auto simp: attempt_def split: result.splits exn.splits)
  then show "wf_tokens ts' \<and> length ts' \<le> length ts"
  proof cases
    case ok
    from goodD_Ok [OF assms wf ok] show ?thesis .
  next
    case err
    from goodD_Throw [OF assms wf err] show ?thesis by simp
  qed
next
  fix ts e ts' assume wf: "wf_tokens ts" and r: "attempt p ts = Throw e ts'"
  then have "p ts = Throw TypeError ts'"
    by (auto simp: attempt_def split: result.splits exn.splits)
  from goodD_Throw [OF assms wf this] show "e \<noteq> TypeError \<and> wf_tokens ts' \<and> length ts' \<le> length ts"
    by simp
qed

lemmas good_rules =
  good_return good_out_of_fuel good_peek good_isAtEnd good_check good_advance_token good_match
  strict_consume [THEN strict_good] strict_throw [THEN strict_good]
  good_andThen good_on_match good_if good_case_sum good_case_prod good_attempt

lemma strict_peek_throw:
  "strict (andThen peek (\<lambda>token. throw (ParseError (msg token) (l token) (c token))))"
  by (rule strict_andThen_good [OF good_peek]) (rule strict_throw)

definition good_expression_grammar :: "nat \<Rightarrow> bool" where
  "good_expression_grammar n \<longleftrightarrow>
     strict (expression n) \<and>
     strict (comparison n) \<and>
     (\<forall>e. good (comparison_loop n e)) \<and>
     strict (additive n) \<and>
     (\<forall>e. good (additive_loop n e)) \<and>
     strict (multiplicative n) \<and>
     (\<forall>e. good (multiplicative_loop n e)) \<and>
     strict (call n) \<and>
     (\<forall>args. good (call_arguments n args)) \<and>
     strict (shape n) \<and>
     (\<forall>t. good (circle n t)) \<and>
     (\<forall>t. good (rect n t)) \<and>
     (\<forall>t. good (line_shape n t)) \<and>
     (\<forall>t. good (triangle n t)) \<and>
     (\<forall>i ps. good (triangle_points n i ps)) \<and>
     strict (primary n)"

lemma good_expression_grammar: "good_expression_grammar n"
proof (induction n)
  case 0
  show ?case
    by (simp add: good_expression_grammar_def strict_out_of_fuel good_out_of_fuel)
next
  case (Suc n)
  then have S:
    "strict (expression n)" "strict (comparison n)" "strict (additive n)"
    "strict (multiplicative n)" "strict (call n)" "strict (shape n)" "strict (primary n)"
    and G:
    "\<And>e. good (comparison_loop n e)" "\<And>e. good (additive_loop n e)"
    "\<And>e. good (multiplicative_loop n e)" "\<And>args. good (call_arguments n args)"
    "\<And>t. good (circle n t)" "\<And>t. good (rect n t)" "\<And>t. good (line_shape n t)"
    "\<And>t. good (triangle n t)" "\<And>i ps. good (triangle_points n i ps)"
    by (simp_all add: good_expression_grammar_def)
  note grules = G S [THEN strict_good] good_rules
  note srules = S strict_peek_throw strict_on_match strict_andThen grules
  have "strict (expression (Suc n))" by (simp only: expression.simps S)
  moreover have "strict (comparison (Suc n))" by (simp only: comparison.simps) (intro srules)
  moreover have "good (comparison_loop (Suc n) e)" for e
    by (simp only: comparison_loop.simps) (intro grules)
  moreover have "strict (additive (Suc n))" by (simp only: additive.simps) (intro srules)
  moreover have "good (additive_loop (Suc n) e)" for e
    by (simp only: additive_loop.simps) (intro grules)
  moreover have "strict (multiplicative (Suc n))"
    by (simp only: multiplicative.simps) (intro srules)
  moreover have "good (multiplicative_loop (Suc n) e)" for e
    by (simp only: multiplicative_loop.simps) (intro grules)
  moreover have "strict (call (Suc n))" by (simp only: call.simps) (intro srules)
  moreover have "good (call_arguments (Suc n) args)" for args
    by (simp only: call_arguments.simps) (intro grules)
  moreover have "strict (shape (Suc n))" by (simp only: shape.simps) (intro srules)
  moreover have "good (circle (Suc n) t)" for t by (simp only: circle.simps) (intro grules)
  moreover have "good (rect (Suc n) t)" for t by (simp only: rect.simps) (intro grules)
  moreover have "good (line_shape (Suc n) t)" for t
    by (simp only: line_shape.simps) (intro grules)
  moreover have "good (triangle (Suc n) t)" for t
    by (simp only: triangle.simps) (intro grules)
  moreover have "good (triangle_points (Suc n) i ps)" for i ps
    by (simp only: triangle_points.simps) (intro grules)
  moreover have "strict (primary (Suc n))" by (simp only: primary.simps) (intro srules)
  ultimately show ?case unfolding good_expression_grammar_def by blast
qed

lemma strict_expression: "strict (expression n)"
  and strict_primary: "strict (primary n)"
  using good_expression_grammar [of n] by (simp_all add: good_expression_grammar_def)

lemma good_commands:
  "good (moveCommand n t)" "good (rotateCommand n t)" "good (scaleCommand n t)"
  "good (fadeCommand n t)"
  unfolding moveCommand_def rotateCommand_def scaleCommand_def fadeCommand_def
  by (intro good_rules strict_primary [THEN strict_good])+

lemma good_animate_loop: "good (animate_loop n animations)"
proof (induction n arbitrary: animations)
  case 0
  show ?case by (simp add: good_out_of_fuel)
next
  case (Suc n)
  show ?case by (simp only: animate_loop.simps) (intro Suc good_commands good_rules)
qed

lemma good_simple_statements:
  "good (animateBlock n t)" "good (letStatement n t)" "good (returnStatement n t)"
  unfolding animateBlock_def letStatement_def returnStatement_def
  by (intro good_rules strict_expression [THEN strict_good] good_animate_loop)+

lemma strict_expressionStatement: "strict (expressionStatement n)"
  unfolding expressionStatement_def
  by (intro strict_andThen strict_expression good_rules)

lemma good_parameter_list: "good (parameter_list n parameters)"
proof (induction n arbitrary: parameters)
  case 0
  show ?case by (simp add: good_out_of_fuel)
next
  case (Suc n)
  show ?case by (simp only: parameter_list.simps) (intro Suc good_rules)
qed

definition good_statement_grammar :: "nat \<Rightarrow> bool" where
  "good_statement_grammar n \<longleftrightarrow>
     strict (statement n) \<and>
     (\<forall>stmts. good (block n stmts)) \<and>
     (\<forall>t. good (functionDeclaration n t)) \<and>
     (\<forall>t. good (ifStatement n t)) \<and>
     (\<forall>t. good (repeatStatement n t)) \<and>
     (\<forall>t. good (sceneBlock n t))"

lemma good_statement_grammar: "good_statement_grammar n"
proof (induction n)
  case 0
  show ?case
    by (simp add: good_statement_grammar_def strict_out_of_fuel good_out_of_fuel)
next
  case (Suc n)
  then have S: "strict (statement n)"
    and G: "\<And>stmts. good (block n stmts)" "\<And>t. good (functionDeclaration n t)"
      "\<And>t. good (ifStatement n t)" "\<And>t. good (repeatStatement n t)"
      "\<And>t. good (sceneBlock n t)"
    by (simp_all add: good_statement_grammar_def)
  note grules = G S [THEN strict_good] good_simple_statements good_parameter_list
    strict_expression [THEN strict_good] good_rules
  have "strict (statement (Suc n))"
    by (simp only: statement.simps)
      (intro strict_on_match strict_expressionStatement grules)
  moreover have "good (block (Suc n) stmts)" for stmts
    by (simp only: block.simps) (intro grules)
  moreover have "good (functionDeclaration (Suc n) t)" for t
    by (simp only: functionDeclaration.simps) (intro grules)
  moreover have "good (ifStatement (Suc n) t)" for t
    by (simp only: ifStatement.simps) (intro grules)
  moreover have "good (repeatStatement (Suc n) t)" for t
    by (simp only: repeatStatement.simps) (intro grules)
  moreover have "good (sceneBlock (Suc n) t)" for t
    by (simp only: sceneBlock.simps) (intro grules)
  ultimately show ?case unfolding good_statement_grammar_def by blast
qed

lemma strict_statement: "strict (statement n)"
  using good_statement_grammar [of n] by (simp add: good_statement_grammar_def)

lemma synchronize_loop_wf:
  "wf_tokens ts \<Longrightarrow>
     \<exists>ts'. synchronize_loop prev ts = Ok () ts' \<and> wf_tokens ts' \<and> length ts' \<le> length ts"
proof (induction ts arbitrary: prev)
  case Nil
  then show ?case by simp
next
  case (Cons t ts)
  show ?case
  proof (cases "tok_type t = EOF \<or> tok_type prev = NEWLINE \<or> starts_statement (tok_type t)")
    case True
    with Cons.prems show ?thesis by auto
  next
    case False
    with Cons.prems have "wf_tokens ts" by (auto dest: wf_tokens_Cons)
    from Cons.IH [OF this, of t] False show ?thesis by auto
  qed
qed

lemma synchronize_wf:
  assumes "wf_tokens ts"
  shows "\<exists>ts'. synchronize ts = Ok () ts' \<and> wf_tokens ts' \<and> length ts' \<le> length ts \<and>
     (length ts' < length ts \<or> isAtEnd ts' = Ok True ts')"
proof -
  from assms obtain t ts0 where ts: "ts = t # ts0" by (cases ts) auto
  show ?thesis
  proof (cases "tok_type t = EOF")
    case True
    with assms ts show ?thesis by simp
  next
    case False
    with assms ts have "wf_tokens ts0" by (auto dest: wf_tokens_Cons)
    from synchronize_loop_wf [OF this, of t] False ts show ?thesis by auto
  qed
qed

lemma good_synchronize: "good synchronize"
proof (rule goodI)
  fix ts a ts' assume "wf_tokens ts" and "synchronize ts = Ok a ts'"
  with synchronize_wf [of ts] show "wf_tokens ts' \<and> length ts' \<le> length ts" by auto
next
  fix ts e ts' assume "wf_tokens ts" and "synchronize ts = Throw e ts'"
  with synchronize_wf [of ts]
  show "e \<noteq> TypeError \<and> wf_tokens ts' \<and> length ts' \<le> length ts" by auto
qed

lemma good_parse_loop: "good (parse_loop n statements console)"
proof (induction n arbitrary: statements console)
  case 0
  show ?case by (simp add: good_out_of_fuel)
next
  case (Suc n)
  show ?case
    by (simp only: parse_loop.simps)
      (intro Suc good_synchronize strict_statement [THEN strict_good] good_rules)
qed

lemma good_parse: "good (parse n)"
  unfolding parse_def by (intro good_parse_loop good_rules)

text \<open>No \<open>ParseError\<close> leaves \<open>parse\<close>: the loop catches each one.\<close>

definition catches :: "'a parser \<Rightarrow> bool" where
  "catches p \<longleftrightarrow> (\<forall>ts e ts'. p ts = Throw e ts' \<longrightarrow> e = TypeError)"

lemma catches_andThen:
  assumes "catches p" and "\<And>a. catches (f a)"
  shows "catches (andThen p f)"
  unfolding catches_def
proof (intro allI impI)
  fix ts e ts' assume "andThen p f ts = Throw e ts'"
  then consider (a) "p ts = Throw e ts'"
    | (b) b ts1 where "p ts = Ok b ts1" "f b ts1 = Throw e ts'"
    by (auto simp: andThen_def split: result.splits)
  then show "e = TypeError"
    using assms unfolding catches_def by cases blast+
qed

lemma catches_simple:
  "catches (return a)" "catches out_of_fuel" "catches isAtEnd" "catches (attempt p)"
  "catches synchronize"
proof -
  show "catches (return a)" by (simp add: catches_def return_def)
  show "catches out_of_fuel" by (simp add: catches_def out_of_fuel_def)
  show "catches isAtEnd" unfolding catches_def
  proof (intro allI impI)
    fix ts :: "Token list" and e ts' assume "isAtEnd ts = Throw e ts'"
    then show "e = TypeError" by (cases ts) auto
  qed
  show "catches (attempt p)"
    by (auto simp: catches_def attempt_def split: result.splits exn.splits)
  have "synchronize_loop prev ts = Throw e ts' \<Longrightarrow> e = TypeError" for prev ts e ts'
    by (induction ts arbitrary: prev) (auto split: if_splits)
  then show "catches synchronize" unfolding catches_def
    by (metis synchronize.elims result.inject(2) result.distinct(1))
qed

lemma catches_if:
  "(b \<Longrightarrow> catches p) \<Longrightarrow> (\<not> b \<Longrightarrow> catches q) \<Longrightarrow> catches (if b then p else q)"
  by simp

lemma catches_case_sum:
  "(\<And>a. catches (f a)) \<Longrightarrow> (\<And>b. catches (g b)) \<Longrightarrow> catches (case_sum f g x)"
  by (cases x) simp_all

lemma catches_parse_loop: "catches (parse_loop n statements console)"
proof (induction n arbitrary: statements console)
  case 0
  show ?case by (simp add: catches_simple)
next
  case (Suc n)
  show ?case
    by (simp only: parse_loop.simps)
      (intro catches_andThen catches_if catches_case_sum catches_simple Suc)
qed

lemma catches_parse: "catches (parse n)"
  unfolding parse_def
  by (intro catches_parse_loop catches_andThen) (simp add: catches_simple split: prod.split)

lemma parse_never_throws:
  assumes "wf_tokens ts"
  shows "parse n ts \<noteq> Throw e ts'"
proof
  assume t: "parse n ts = Throw e ts'"
  with catches_parse have "e = TypeError" unfolding catches_def by blast
  moreover from goodD_Throw [OF good_parse assms t] have "e \<noteq> TypeError" by simp
  ultimately show False by simp
qed

subsection \<open>Enough fuel\<close>

text \<open>
  \<open>halts b p\<close>: the parser \<open>p\<close> does not run out of fuel on a token sequence of the lexer
  of at most \<open>b div 10\<close> tokens. \<open>halts_from P b p\<close> restricts this to the positions
  that satisfy \<open>P\<close>.
\<close>

definition halts_from :: "(Token list \<Rightarrow> bool) \<Rightarrow> nat \<Rightarrow> 'a parser \<Rightarrow> bool" where
  "halts_from P b p \<longleftrightarrow>
     (\<forall>ts. wf_tokens ts \<longrightarrow> P ts \<longrightarrow> 10 * length ts \<le> b \<longrightarrow> p ts \<noteq> OutOfFuel)"

definition halts :: "nat \<Rightarrow> 'a parser \<Rightarrow> bool" where
  "halts b p \<longleftrightarrow> halts_from (\<lambda>ts. True) b p"

lemma haltsD: "halts b p \<Longrightarrow> wf_tokens ts \<Longrightarrow> 10 * length ts \<le> b \<Longrightarrow> p ts \<noteq> OutOfFuel"
  by (simp add: halts_def halts_from_def)

lemma halts_weaken: "halts b p \<Longrightarrow> b' \<le> b \<Longrightarrow> halts b' p"
  by (simp add: halts_def halts_from_def)

lemma halts_halts_from: "halts b p \<Longrightarrow> halts_from P b p"
  by (simp add: halts_def halts_from_def)

lemma halts_primitive:
  "halts b (return a)" "halts b (throw e)" "halts b peek" "halts b isAtEnd"
  "halts b (check ty)" "halts b advance_token" "halts b (consume ty msg)"
  "halts b synchronize"
proof -
  show "halts b (return a)" by (simp add: halts_def halts_from_def return_def)
  show "halts b (throw e)" by (simp add: halts_def halts_from_def throw_def)
  show "halts b peek" unfolding halts_def halts_from_def
  proof (intro allI impI)
    fix ts :: "Token list" show "peek ts \<noteq> OutOfFuel" by (cases ts) simp_all
  qed
  show "halts b isAtEnd" unfolding halts_def halts_from_def
  proof (intro allI impI)
    fix ts :: "Token list" show "isAtEnd ts \<noteq> OutOfFuel" by (cases ts) simp_all
  qed
  show "halts b (check ty)" unfolding halts_def halts_from_def
  proof (intro allI impI)
    fix ts :: "Token list" show "check ty ts \<noteq> OutOfFuel" by (cases ts) simp_all
  qed
  show "halts b advance_token" unfolding halts_def halts_from_def
  proof (intro allI impI)
    fix ts :: "Token list" show "advance_token ts \<noteq> OutOfFuel" by (cases ts) simp_all
  qed
  show "halts b (consume ty msg)" unfolding halts_def halts_from_def
  proof (intro allI impI)
    fix ts :: "Token list" show "consume ty msg ts \<noteq> OutOfFuel" by (cases ts) simp_all
  qed
  show "halts b synchronize" unfolding halts_def halts_from_def
  proof (intro allI impI)
    fix ts :: "Token list" assume "wf_tokens ts"
    from synchronize_wf [OF this] show "synchronize ts \<noteq> OutOfFuel" by auto
  qed
qed

lemma halts_match: "halts b (match tys)"
  unfolding halts_def halts_from_def
proof (intro allI impI)
  fix ts :: "Token list" assume "wf_tokens ts"
  then obtain t ts0 where "ts = t # ts0" by (cases ts) auto
  with match_cases [of tys t ts0] show "match tys ts \<noteq> OutOfFuel" by auto
qed

lemma halts_andThen_good:
  assumes "good p" and "halts b p" and "\<And>a. halts b (f a)"
  shows "halts b (andThen p f)"
  unfolding halts_def halts_from_def
proof (intro allI impI)
  fix ts assume wf: "wf_tokens ts" and b: "10 * length ts \<le> b"
  from haltsD [OF assms(2) wf b] show "andThen p f ts \<noteq> OutOfFuel"
  proof (cases "p ts")
    case (Ok a ts')
    from goodD_Ok [OF assms(1) wf Ok] b have "wf_tokens ts'" "10 * length ts' \<le> b" by auto
    from haltsD [OF assms(3) this] Ok show ?thesis by (simp add: andThen_def)
  qed (simp_all add: andThen_def)
qed

lemma halts_andThen_strict:
  assumes "strict p" and "halts b p" and "\<And>a. halts (b - 10) (f a)"
  shows "halts b (andThen p f)"
  unfolding halts_def halts_from_def
proof (intro allI impI)
  fix ts assume wf: "wf_tokens ts" and b: "10 * length ts \<le> b"
  from haltsD [OF assms(2) wf b] show "andThen p f ts \<noteq> OutOfFuel"
  proof (cases "p ts")
    case (Ok a ts')
    from goodD_Ok [OF strict_good [OF assms(1)] wf Ok] strictD [OF assms(1) wf Ok] b
    have "wf_tokens ts'" "10 * length ts' \<le> b - 10" by auto
    from haltsD [OF assms(3) this] Ok show ?thesis by (simp add: andThen_def)
  qed (simp_all add: andThen_def)
qed

lemma halts_from_on_match:
  assumes "\<And>t. halts (b - 10) (f t)" and "halts_from P b q"
  shows "halts_from P b (on_match tys f q)"
  unfolding halts_from_def
proof (intro allI impI)
  fix ts assume wf: "wf_tokens ts" and P: "P ts" and b: "10 * length ts \<le> b"
  from wf obtain t ts0 where ts: "ts = t # ts0" by (cases ts) auto
  from match_cases [of tys t ts0] show "on_match tys f q ts \<noteq> OutOfFuel"
  proof
    assume "match tys (t # ts0) = Ok None (t # ts0)"
    with assms(2) wf P b show ?thesis
      by (simp add: on_match_def andThen_def halts_from_def ts)
  next
    assume m: "tok_type t \<noteq> EOF \<and> match tys (t # ts0) = Ok (Some t) ts0"
    with wf have "wf_tokens ts0" unfolding ts by (auto dest: wf_tokens_Cons)
    moreover from b have "10 * length ts0 \<le> b - 10" by (simp add: ts)
    ultimately have "f t ts0 \<noteq> OutOfFuel" by (rule haltsD [OF assms(1)])
    with m show ?thesis by (simp add: on_match_def andThen_def ts)
  qed
qed

lemma halts_on_match:
  "(\<And>t. halts (b - 10) (f t)) \<Longrightarrow> halts b q \<Longrightarrow> halts b (on_match tys f q)"
  by (simp add: halts_def halts_from_on_match [unfolded halts_def])

lemma halts_if: "halts b p \<Longrightarrow> halts b q \<Longrightarrow> halts b (if c then p else q)"
  by simp

lemma halts_case_prod: "(\<And>a b. halts n (f a b)) \<Longrightarrow> halts n (case_prod f x)"
  by (cases x) simp

text \<open>
  A loop that goes on while the position is not at the end: \<open>advance\<close> in its last
  branch consumes a token.
\<close>

lemma halts_not_at_end:
  assumes "halts_from (\<lambda>ts. isAtEnd ts = Ok False ts) b p" and "halts b q"
  shows "halts b (andThen isAtEnd (\<lambda>atEnd. if c \<and> \<not> atEnd then p else q))"
  unfolding halts_def halts_from_def
proof (intro allI impI)
  fix ts assume wf: "wf_tokens ts" and b: "10 * length ts \<le> b"
  from wf obtain t ts0 where ts: "ts = t # ts0" by (cases ts) auto
  from haltsD [OF assms(2) wf b] assms(1) wf b
  show "andThen isAtEnd (\<lambda>atEnd. if c \<and> \<not> atEnd then p else q) ts \<noteq> OutOfFuel"
    by (simp add: andThen_def ts halts_from_def)
qed

lemma halts_from_advance_token:
  assumes "\<And>a. halts (b - 10) (f a)"
  shows "halts_from (\<lambda>ts. isAtEnd ts = Ok False ts) b (andThen advance_token f)"
  unfolding halts_from_def
proof (intro allI impI)
  fix ts assume wf: "wf_tokens ts" and P: "isAtEnd ts = Ok False ts"
    and b: "10 * length ts \<le> b"
  from wf obtain t ts0 where ts: "ts = t # ts0" by (cases ts) auto
  from P have t: "tok_type t \<noteq> EOF" by (simp add: ts)
  with wf have "wf_tokens ts0" unfolding ts by (auto dest: wf_tokens_Cons)
  moreover from b have "10 * length ts0 \<le> b - 10" by (simp add: ts)
  ultimately have "f () ts0 \<noteq> OutOfFuel" by (rule haltsD [OF assms])
  with t show "andThen advance_token f ts \<noteq> OutOfFuel" by (simp add: andThen_def ts)
qed

lemma strict_grammar:
  "strict (expression n)" "strict (comparison n)" "strict (additive n)"
  "strict (multiplicative n)" "strict (call n)" "strict (shape n)" "strict (primary n)"
  using good_expression_grammar [of n] by (simp_all add: good_expression_grammar_def)

lemma good_grammar:
  "good (comparison_loop n e)" "good (additive_loop n e)" "good (multiplicative_loop n e)"
  "good (call_arguments n args)" "good (circle n t)" "good (rect n t)"
  "good (line_shape n t)" "good (triangle n t)" "good (triangle_points n i ps)"
  using good_expression_grammar [of n] by (simp_all add: good_expression_grammar_def)

lemmas halts_after =
  strict_consume [THEN halts_andThen_strict] strict_grammar [THEN halts_andThen_strict]

lemmas halts_rules =
  halts_after halts_andThen_good halts_on_match halts_if halts_case_prod
  halts_primitive halts_match good_grammar strict_grammar [THEN strict_good] good_rules

definition expression_grammar_halts :: "nat \<Rightarrow> bool" where
  "expression_grammar_halts n \<longleftrightarrow>
     halts (n - 6) (expression n) \<and>
     halts (n - 5) (comparison n) \<and>
     (\<forall>e. halts n (comparison_loop n e)) \<and>
     halts (n - 4) (additive n) \<and>
     (\<forall>e. halts n (additive_loop n e)) \<and>
     halts (n - 3) (multiplicative n) \<and>
     (\<forall>e. halts n (multiplicative_loop n e)) \<and>
     halts (n - 2) (call n) \<and>
     (\<forall>args. halts (n - 7) (call_arguments n args)) \<and>
     halts (n - 1) (shape n) \<and>
     (\<forall>t. halts n (circle n t)) \<and>
     (\<forall>t. halts n (rect n t)) \<and>
     (\<forall>t. halts n (line_shape n t)) \<and>
     (\<forall>t. halts (n - 1) (triangle n t)) \<and>
     (\<forall>i ps. halts n (triangle_points n i ps)) \<and>
     halts n (primary n)"

lemma halts_out_of_fuel: "halts 0 out_of_fuel"
  by (simp add: halts_def halts_from_def) 

lemma expression_grammar_halts: "expression_grammar_halts n"
proof (induction n)
  case 0
  show ?case by (simp add: expression_grammar_halts_def halts_out_of_fuel)
next
  case (Suc n)
  then have IH:
    "halts (n - 6) (expression n)" "halts (n - 5) (comparison n)"
    "\<And>e. halts n (comparison_loop n e)" "halts (n - 4) (additive n)"
    "\<And>e. halts n (additive_loop n e)" "halts (n - 3) (multiplicative n)"
    "\<And>e. halts n (multiplicative_loop n e)" "halts (n - 2) (call n)"
    "\<And>args. halts (n - 7) (call_arguments n args)" "halts (n - 1) (shape n)"
    "\<And>t. halts n (circle n t)" "\<And>t. halts n (rect n t)" "\<And>t. halts n (line_shape n t)"
    "\<And>t. halts (n - 1) (triangle n t)" "\<And>i ps. halts n (triangle_points n i ps)"
    "halts n (primary n)"
    by (simp_all add: expression_grammar_halts_def)
  note rules = halts_rules IH [THEN halts_weaken]
  have "halts (Suc n - 6) (expression (Suc n))"
    by (simp only: expression.simps) (intro rules; simp)
  moreover have "halts (Suc n - 5) (comparison (Suc n))"
    by (simp only: comparison.simps) (intro rules; simp)
  moreover have "halts (Suc n) (comparison_loop (Suc n) e)" for e
    by (simp only: comparison_loop.simps) (intro rules; simp)
  moreover have "halts (Suc n - 4) (additive (Suc n))"
    by (simp only: additive.simps) (intro rules; simp)
  moreover have "halts (Suc n) (additive_loop (Suc n) e)" for e
    by (simp only: additive_loop.simps) (intro rules; simp)
  moreover have "halts (Suc n - 3) (multiplicative (Suc n))"
    by (simp only: multiplicative.simps) (intro rules; simp)
  moreover have "halts (Suc n) (multiplicative_loop (Suc n) e)" for e
    by (simp only: multiplicative_loop.simps) (intro rules; simp)
  moreover have "halts (Suc n - 2) (call (Suc n))"
    by (simp only: call.simps) (intro rules; simp)
  moreover have "halts (Suc n - 7) (call_arguments (Suc n) args)" for args
    by (simp only: call_arguments.simps) (intro rules; simp)
  moreover have "halts (Suc n - 1) (shape (Suc n))"
    by (simp only: shape.simps) (intro rules; simp)
  moreover have "halts (Suc n) (circle (Suc n) t)" for t
    by (simp only: circle.simps) (intro rules; simp)
  moreover have "halts (Suc n) (rect (Suc n) t)" for t
    by (simp only: rect.simps) (intro rules; simp)
  moreover have "halts (Suc n) (line_shape (Suc n) t)" for t
    by (simp only: line_shape.simps) (intro rules; simp)
  moreover have "halts (Suc n - 1) (triangle (Suc n) t)" for t
    by (simp only: triangle.simps) (intro rules; simp)
  moreover have "halts (Suc n) (triangle_points (Suc n) i ps)" for i ps
    by (simp only: triangle_points.simps) (intro rules; simp)
  moreover have "halts (Suc n) (primary (Suc n))"
    by (simp only: primary.simps) (intro rules; simp)
  ultimately show ?case unfolding expression_grammar_halts_def by blast
qed

lemma expression_halts: "halts (n - 6) (expression n)"
  and primary_halts: "halts n (primary n)"
  using expression_grammar_halts [of n] by (simp_all add: expression_grammar_halts_def)

lemma command_halts:
  assumes "b \<le> n"
  shows "halts b (moveCommand n t)" "halts b (rotateCommand n t)"
    "halts b (scaleCommand n t)" "halts b (fadeCommand n t)"
  unfolding moveCommand_def rotateCommand_def scaleCommand_def fadeCommand_def
  using assms by (intro halts_rules primary_halts [THEN halts_weaken]; simp)+

lemma animate_loop_halts: "halts n (animate_loop n animations)"
proof (induction n arbitrary: animations)
  case 0
  show ?case by (simp add: halts_out_of_fuel)
next
  case (Suc n)
  note rules = halts_rules good_commands command_halts Suc [THEN halts_weaken]
  show ?case
    by (simp only: animate_loop.simps)
      (intro halts_andThen_good halts_not_at_end halts_from_on_match
        halts_from_advance_token good_check halts_primitive;
       (intro rules; simp))
qed

lemma simple_statement_halts:
  assumes "b \<le> n - 6"
  shows "halts b (animateBlock n t)" "halts b (letStatement n t)"
    "halts b (returnStatement n t)" "halts b (expressionStatement n)"
  unfolding animateBlock_def letStatement_def returnStatement_def expressionStatement_def
  using assms
  by (intro halts_rules good_animate_loop expression_halts [THEN halts_weaken]
        animate_loop_halts [THEN halts_weaken]; simp)+

lemma parameter_list_halts: "halts n (parameter_list n parameters)"
proof (induction n arbitrary: parameters)
  case 0
  show ?case by (simp add: halts_out_of_fuel)
next
  case (Suc n)
  show ?case
    by (simp only: parameter_list.simps) (intro halts_rules Suc [THEN halts_weaken]; simp)
qed

lemma good_statements:
  "good (block n stmts)" "good (functionDeclaration n t)" "good (ifStatement n t)"
  "good (repeatStatement n t)" "good (sceneBlock n t)"
  using good_statement_grammar [of n] by (simp_all add: good_statement_grammar_def)

definition statement_grammar_halts :: "nat \<Rightarrow> bool" where
  "statement_grammar_halts n \<longleftrightarrow>
     halts (n - 7) (statement n) \<and>
     (\<forall>stmts. halts (n - 8) (block n stmts)) \<and>
     (\<forall>t. halts n (functionDeclaration n t)) \<and>
     (\<forall>t. halts (n - 7) (ifStatement n t)) \<and>
     (\<forall>t. halts (n - 7) (repeatStatement n t)) \<and>
     (\<forall>t. halts n (sceneBlock n t))"

lemma statement_grammar_halts: "statement_grammar_halts n"
proof (induction n)
  case 0
  show ?case by (simp add: statement_grammar_halts_def halts_out_of_fuel)
next
  case (Suc n)
  then have IH:
    "halts (n - 7) (statement n)" "\<And>stmts. halts (n - 8) (block n stmts)"
    "\<And>t. halts n (functionDeclaration n t)" "\<And>t. halts (n - 7) (ifStatement n t)"
    "\<And>t. halts (n - 7) (repeatStatement n t)" "\<And>t. halts n (sceneBlock n t)"
    by (simp_all add: statement_grammar_halts_def)
  note rules =
    strict_statement [THEN halts_andThen_strict] halts_rules good_statements
    good_parameter_list IH [THEN halts_weaken] simple_statement_halts
    expression_halts [THEN halts_weaken] parameter_list_halts [THEN halts_weaken]
  have "halts (Suc n - 7) (statement (Suc n))"
    by (simp only: statement.simps) (intro rules; simp)
  moreover have "halts (Suc n - 8) (block (Suc n) stmts)" for stmts
    by (simp only: block.simps) (intro rules; simp)
  moreover have "halts (Suc n) (functionDeclaration (Suc n) t)" for t
    by (simp only: functionDeclaration.simps) (intro rules; simp)
  moreover have "halts (Suc n - 7) (ifStatement (Suc n) t)" for t
    by (simp only: ifStatement.simps) (intro rules; simp)
  moreover have "halts (Suc n - 7) (repeatStatement (Suc n) t)" for t
    by (simp only: repeatStatement.simps) (intro rules; simp)
  moreover have "halts (Suc n) (sceneBlock (Suc n) t)" for t
    by (simp only: sceneBlock.simps) (intro rules; simp)
  ultimately show ?case unfolding statement_grammar_halts_def by blast
qed

lemma statement_halts: "halts (n - 7) (statement n)"
  using statement_grammar_halts [of n] by (simp add: statement_grammar_halts_def)

lemma parse_loop_halts:
  "wf_tokens ts \<Longrightarrow> 10 * length ts + 8 \<le> n \<Longrightarrow> parse_loop n statements console ts \<noteq> OutOfFuel"
proof (induction n arbitrary: ts statements console)
  case 0
  then show ?case by simp
next
  case (Suc n)
  from Suc.prems(1) obtain t ts0 where ts: "ts = t # ts0" by (cases ts) auto
  show ?case
  proof (cases "tok_type t = EOF")
    case True
    then show ?thesis by (simp add: ts andThen_def return_def)
  next
    case False
    have loop: "parse_loop (Suc n) statements console ts =
      andThen (attempt (statement n)) (\<lambda>r.
         case r of
           Inr stmt \<Rightarrow> parse_loop n (statements @ [stmt]) console
         | Inl error \<Rightarrow>
             andThen synchronize (\<lambda>_.
             parse_loop n statements (console @ [parse_error_message error]))) ts"
      using False by (simp add: ts andThen_def)
    from Suc.prems have fuel: "10 * length ts \<le> n - 7" by simp
    note st = haltsD [OF statement_halts Suc.prems(1) fuel]
    show ?thesis
    proof (cases "statement n ts")
      case (Ok stmt ts1)
      from goodD_Ok [OF strict_statement [THEN strict_good] Suc.prems(1) Ok]
        strictD [OF strict_statement Suc.prems(1) Ok] Suc.prems(2)
      have "wf_tokens ts1" "10 * length ts1 + 8 \<le> n" by auto
      from Suc.IH [OF this] Ok show ?thesis
        unfolding loop by (simp add: andThen_def attempt_def)
    next
      case (Throw e ts1)
      from goodD_Throw [OF strict_statement [THEN strict_good] Suc.prems(1) Throw]
      have e: "e \<noteq> TypeError" and wf1: "wf_tokens ts1" and le1: "length ts1 \<le> length ts"
        by auto
      from e obtain msg l c where e': "e = ParseError msg l c" by (cases e) auto
      from synchronize_wf [OF wf1] obtain ts2 where
        sync: "synchronize ts1 = Ok () ts2" and wf2: "wf_tokens ts2"
        and le2: "length ts2 \<le> length ts1"
        and end2: "length ts2 < length ts1 \<or> isAtEnd ts2 = Ok True ts2" by blast
      have "parse_loop n statements (console @ [parse_error_message e]) ts2 \<noteq> OutOfFuel"
      proof (cases "length ts2 < length ts")
        case True
        with Suc.prems(2) have "10 * length ts2 + 8 \<le> n" by simp
        from Suc.IH [OF wf2 this] show ?thesis .
      next
        case False
        with le1 end2 have atEnd: "isAtEnd ts2 = Ok True ts2" by simp
        from Suc.prems(2) obtain m where "n = Suc m" by (cases n) auto
        with atEnd show ?thesis by (simp add: andThen_def return_def)
      qed
      with Throw sync show ?thesis
        unfolding loop by (simp add: andThen_def attempt_def e')
    next
      case OutOfFuel
      with st show ?thesis by simp
    qed
  qed
qed

lemma parse_halts:
  assumes "wf_tokens ts" and "10 * length ts + 8 \<le> n"
  shows "parse n ts \<noteq> OutOfFuel"
  using parse_loop_halts [OF assms, of "[]" "[]"]
  by (auto simp: parse_def andThen_def return_def split: result.splits)

lemma wf_tokens_tokenize: "wf_tokens (tokenize sourceCode)"
proof -
  from tokenize_shape [of sourceCode] obtain ts e where
    "tokenize sourceCode = ts @ [e]" "tok_type e = EOF" by blast
  then show ?thesis by (simp add: wf_tokens_def)
qed

text \<open>The fuel that suffices for a source text.\<close>

definition enough_fuel :: "string \<Rightarrow> nat" where
  "enough_fuel sourceCode = 10 * length (tokenize sourceCode) + 8"

lemma parse_returns:
  assumes "enough_fuel sourceCode \<le> fuel"
  shows "\<exists>program console ts. parse fuel (tokenize sourceCode) = Ok (program, console) ts"
proof (cases "parse fuel (tokenize sourceCode)")
  case (Ok a ts)
  then show ?thesis by (cases a) auto
next
  case (Throw e ts)
  with parse_never_throws [OF wf_tokens_tokenize] show ?thesis by blast
next
  case OutOfFuel
  with parse_halts [OF wf_tokens_tokenize, of sourceCode fuel] assms
  show ?thesis by (simp add: enough_fuel_def)
qed

lemma compile_returns:
  assumes "enough_fuel sourceCode \<le> fuel"
  shows "compile numberToString fuel sourceCode \<noteq> None"
proof -
  from parse_returns [OF assms] obtain program console ts where
    "parse fuel (tokenize sourceCode) = Ok (program, console) ts" by blast
  then show ?thesis by (simp add: compile_def Let_def split: option.split)
qed

text \<open>
  The fuel is a device of the model and the result does not depend on it: every run
  with enough fuel returns, and every run that returns, with whatever fuel, returns the
  same result.
\<close>

lemma compile_fuel_independent:
  "\<exists>r. (\<forall>fuel \<ge> enough_fuel sourceCode. compile numberToString fuel sourceCode = Some r) \<and>
       (\<forall>fuel r'. compile numberToString fuel sourceCode = Some r' \<longrightarrow> r' = r)"
proof -
  from compile_returns [of sourceCode "enough_fuel sourceCode" numberToString]
  obtain r where r: "compile numberToString (enough_fuel sourceCode) sourceCode = Some r"
    by auto
  have "compile numberToString fuel sourceCode = Some r"
    if "enough_fuel sourceCode \<le> fuel" for fuel
    using compile_more_fuel [OF r that] .
  moreover have "r' = r" if r': "compile numberToString fuel sourceCode = Some r'" for fuel r'
  proof (cases "fuel \<le> enough_fuel sourceCode")
    case True
    from compile_more_fuel [OF r' True] r show ?thesis by simp
  next
    case False
    then have "enough_fuel sourceCode \<le> fuel" by simp
    from compile_more_fuel [OF r this] r' show ?thesis by simp
  qed
  ultimately show ?thesis by blast
qed

subsection \<open>Chains of comparisons\<close>

text \<open>
  What the loop of \<open>comparison\<close> reads after the first operand, described on the tokens:
  a list of links, each an operator token, the operand that \<open>additive\<close> returns for the
  tokens behind the operator, and the position where \<open>additive\<close> stopped; the next link
  starts at that position. \<open>position_after\<close> is the position behind the last link and
  \<open>left_nested\<close> the tree the links build on a left operand.
\<close>

fun comparison_chain :: "nat \<Rightarrow> Token list \<Rightarrow> (Token \<times> Expression \<times> Token list) list \<Rightarrow> bool"
where
  "comparison_chain n ts [] = True"
| "comparison_chain n ts ((operator, right, after) # links) =
     (case ts of
        [] \<Rightarrow> False
      | t # operand \<Rightarrow>
          t = operator \<and> tok_type operator \<in> set comparison_operators \<and>
          additive n operand = Ok right after \<and> comparison_chain n after links)"

fun position_after :: "Token list \<Rightarrow> (Token \<times> Expression \<times> Token list) list \<Rightarrow> Token list"
where
  "position_after ts [] = ts"
| "position_after ts ((operator, right, after) # links) = position_after after links"

fun left_nested :: "Expression \<Rightarrow> (Token \<times> Expression \<times> Token list) list \<Rightarrow> Expression"
where
  "left_nested left [] = left"
| "left_nested left ((operator, right, after) # links) =
     left_nested (BinaryExpression (tok_value operator) left right (token_pos operator)) links"

lemma additive_more_fuel:
  assumes "additive n ts = Ok right after" and "n \<le> m"
  shows "additive m ts = Ok right after"
proof -
  from le_expression_grammar [OF assms(2)] have "le_parser (additive n) (additive m)"
    by (simp add: le_expression_grammar_def)
  from le_parserD [OF this, of ts] assms(1) show ?thesis by simp
qed

lemma comparison_loop_links:
  assumes "comparison_chain n ts links"
    and "position_after ts links = t # behind"
    and "tok_type t \<notin> set comparison_operators"
  shows "comparison_loop (Suc (n + length links + k)) left ts =
     Ok (left_nested left links) (t # behind)"
  using assms(1,2)
proof (induction links arbitrary: ts left)
  case Nil
  then have "ts = t # behind" by simp
  with comparison_loop_stop [OF assms(3), of "n + k" left behind] show ?case by simp
next
  case (Cons link links)
  obtain operator right after where link: "link = (operator, right, after)"
    by (cases link)
  from Cons.prems(1) obtain operand where ts: "ts = operator # operand"
    and op: "tok_type operator \<in> set comparison_operators"
    and operand: "additive n operand = Ok right after"
    and chain: "comparison_chain n after links"
    unfolding link by (cases ts) auto
  from Cons.prems(2) have pos: "position_after after links = t # behind"
    by (simp add: link)
  have "additive (Suc (n + length links + k)) operand = Ok right after"
    by (rule additive_more_fuel [OF operand]) simp
  from comparison_loop_step [OF op this, of left]
  have "comparison_loop (Suc (n + length (link # links) + k)) left ts =
      comparison_loop (Suc (n + length links + k))
        (BinaryExpression (tok_value operator) left right (token_pos operator)) after"
    by (simp add: ts)
  also note Cons.IH [OF chain pos]
  finally show ?case by (simp add: link)
qed

text \<open>
  C8. The scanner is a total function with no error result: for every input string
  \<open>tokenize\<close> returns a token sequence, that sequence ends in an end-of-input token, and
  no other token of it is an end-of-input token. A character that starts no token
  (not white space, a newline, a digit, a double quote, \<open>#\<close>, a letter, an underscore or
  one of the operator and delimiter characters) does not end the scan. Where the loop of
  \<open>tokenize\<close> meets it, after white space, the result holds the tokens read so far, then
  one \<open>ILLEGAL\<close> token holding that character, then the tokens of the scan that goes on
  behind it; so it is for a source text that begins with such a character; and a source
  text of such characters only yields one \<open>ILLEGAL\<close> token for each of them, in order,
  and the end-of-input token.
\<close>

theorem tokenize_total_ends_in_one_EOF:
  "(\<exists>ts e. tokenize inp = ts @ [e] \<and> tok_type e = EOF \<and>
      (\<forall>t \<in> set ts. tok_type t \<noteq> EOF)) \<and>
   (currentChar (skipWhitespace s) = Some c \<and> unrecognized c \<longrightarrow>
      tokenize_loop s acc =
        acc @
        mkToken ILLEGAL [c] (line (advance (skipWhitespace s))) (column (skipWhitespace s)) #
        tokenize_loop (advance (skipWhitespace s)) []) \<and>
   (unrecognized c \<longrightarrow>
      tokenize (c # post) =
        mkToken ILLEGAL [c] (line (advance (newLexer (c # post)))) 1 #
        tokenize_loop (advance (newLexer (c # post))) []) \<and>
   ((\<forall>c \<in> set cs. unrecognized c) \<longrightarrow>
      tokenize cs =
        map (\<lambda>(col, c). mkToken ILLEGAL [c] 1 col) (List.enumerate 1 cs) @
        [mkToken EOF [] 1 (1 + length cs)])"
proof (intro conjI impI)
  from tokenize_shape [of inp]
  show "\<exists>ts e. tokenize inp = ts @ [e] \<and> tok_type e = EOF \<and>
      (\<forall>t \<in> set ts. tok_type t \<noteq> EOF)"
    by blast
next
  assume a: "currentChar (skipWhitespace s) = Some c \<and> unrecognized c"
  then have "tokenize_loop s acc =
    tokenize_loop (advance (skipWhitespace s))
      (acc @ [mkToken ILLEGAL [c] (line (advance (skipWhitespace s)))
                (column (skipWhitespace s))])"
    by (intro tokenize_loop_unrecognized) simp_all
  also have "\<dots> = (acc @ [mkToken ILLEGAL [c] (line (advance (skipWhitespace s)))
                (column (skipWhitespace s))]) @ tokenize_loop (advance (skipWhitespace s)) []"
    by (rule tokenize_loop_acc)
  finally show "tokenize_loop s acc =
        acc @
        mkToken ILLEGAL [c] (line (advance (skipWhitespace s))) (column (skipWhitespace s)) #
        tokenize_loop (advance (skipWhitespace s)) []"
    by simp
next
  assume c: "unrecognized c"
  let ?s = "newLexer (c # post)"
  from c have sw: "skipWhitespace ?s = ?s"
    by (intro skipWhitespace_id [of _ c])
      (auto simp: currentChar_def unrecognized_def newLexer_def)
  have "tokenize (c # post) =
    tokenize_loop (advance ?s) ([] @ [mkToken ILLEGAL [c] (line (advance ?s)) (column ?s)])"
    unfolding tokenize_def
    using tokenize_loop_unrecognized [of ?s c "[]"] c
    by (simp add: sw) (simp add: currentChar_def newLexer_def)
  also have "\<dots> = ([] @ [mkToken ILLEGAL [c] (line (advance ?s)) (column ?s)]) @
      tokenize_loop (advance ?s) []"
    by (rule tokenize_loop_acc)
  finally show "tokenize (c # post) =
        mkToken ILLEGAL [c] (line (advance ?s)) 1 # tokenize_loop (advance ?s) []"
    by (simp add: newLexer_def)
next
  assume "\<forall>c \<in> set cs. unrecognized c"
  from tokenize_loop_all_unrecognized [OF this, of 1 1 "[]"]
  show "tokenize cs =
        map (\<lambda>(col, c). mkToken ILLEGAL [c] 1 col) (List.enumerate 1 cs) @
        [mkToken EOF [] 1 (1 + length cs)]"
    by (simp add: tokenize_def newLexer_def)
qed

theorem tokenize_total_ends_in_one_EOF_witness:
  "tokenize ''x @ y'' =
     [mkToken IDENTIFIER ''x'' 1 1, mkToken ILLEGAL ''@'' 1 3, mkToken IDENTIFIER ''y'' 1 5,
      mkToken EOF [] 1 6] \<and>
   tokenize_loop \<lparr>rest = '' @ y'', line = 1, column = 2\<rparr> [mkToken IDENTIFIER ''x'' 1 1] =
     [mkToken IDENTIFIER ''x'' 1 1, mkToken ILLEGAL ''@'' 1 3] @
     tokenize_loop \<lparr>rest = '' y'', line = 1, column = 4\<rparr> [] \<and>
   tokenize ''@ y'' =
     mkToken ILLEGAL ''@'' 1 1 # tokenize_loop \<lparr>rest = '' y'', line = 1, column = 2\<rparr> [] \<and>
   tokenize ''@$'' = [mkToken ILLEGAL ''@'' 1 1, mkToken ILLEGAL ''$'' 1 2, mkToken EOF [] 1 3]"
proof -
  let ?s = "\<lparr>rest = '' @ y'', line = 1, column = 2\<rparr>"
  have sw: "skipWhitespace ?s = \<lparr>rest = ''@ y'', line = 1, column = 3\<rparr>"
    by code_simp
  have u: "unrecognized CHR ''@''" "unrecognized CHR ''$''"
    by code_simp+
  note t = tokenize_total_ends_in_one_EOF
    [of "''x @ y''" ?s "CHR ''@''" "[mkToken IDENTIFIER ''x'' 1 1]" "'' y''" "''@$''"]
  note step = t [THEN conjunct2, THEN conjunct1]
    and first = t [THEN conjunct2, THEN conjunct2, THEN conjunct1]
    and only = t [THEN conjunct2, THEN conjunct2, THEN conjunct2]
  have "tokenize ''x @ y'' =
     [mkToken IDENTIFIER ''x'' 1 1, mkToken ILLEGAL ''@'' 1 3, mkToken IDENTIFIER ''y'' 1 5,
      mkToken EOF [] 1 6]"
    by code_simp
  moreover from step u have
    "tokenize_loop ?s [mkToken IDENTIFIER ''x'' 1 1] =
     [mkToken IDENTIFIER ''x'' 1 1, mkToken ILLEGAL ''@'' 1 3] @
     tokenize_loop \<lparr>rest = '' y'', line = 1, column = 4\<rparr> []"
    by (simp add: sw [simplified] currentChar_def advance_def)
  moreover from first u have "tokenize ''@ y'' =
     mkToken ILLEGAL ''@'' 1 1 # tokenize_loop \<lparr>rest = '' y'', line = 1, column = 2\<rparr> []"
    by (simp add: newLexer_def advance_def eval_nat_numeral)
  moreover from only u have
    "tokenize ''@$'' =
       [mkToken ILLEGAL ''@'' 1 1, mkToken ILLEGAL ''$'' 1 2, mkToken EOF [] 1 3]"
    by (simp add: eval_nat_numeral)
  ultimately show ?thesis by simp
qed

text \<open>
  C6. A \<open>let\<close> statement analyzes its initializer first and declares the bound name
  afterwards: the scopes in which the initializer is analyzed are the incoming ones, the
  errors of the statement are those of the initializer (when the name is new in the
  current scope), and only the resulting state holds the binding. So a reference to the
  bound name inside its own initializer is reported as undefined when no enclosing scope
  has the name. Analyzing the program \<open>let x = x\<close>, and the program \<open>let x = y\<close>, with a
  fresh analyzer gives exactly one error, \<open>Undefined variable 'x'\<close> and
  \<open>Undefined variable 'y'\<close>, at the position of the reference.
\<close>

theorem let_binding_not_visible_in_initializer:
  "analyzeStatement (LetStatement (Identifier x px) e p) a =
     declare_name x ''variable'' px (analyzeExpression e a) \<and>
   scopes (analyzeExpression e a) = scopes a \<and>
   (scopes a = scope # outer \<and> \<not> has_entry scope x \<longrightarrow>
      (\<exists>a'. analyzeStatement (LetStatement (Identifier x px) e p) a = Some a' \<and>
         errors a' = errors (analyzeExpression e a) \<and>
         scopes a' = scope(x \<mapsto> (''variable'', fst px, snd px)) # outer)) \<and>
   (scopes a \<noteq> [] \<and> \<not> resolves (scopes a) x \<longrightarrow>
      (\<exists>a'. analyzeStatement (LetStatement (Identifier x px) (Ident (Identifier x py)) p) a
            = Some a' \<and>
         errors a' = errors a @ [SemanticError (''Undefined variable '' @ quoted x) py] \<and>
         resolves (scopes a') x)) \<and>
   analyze (Program [LetStatement (Identifier ''x'' px) (Ident (Identifier ''x'' py)) p] pp)
       newSemanticAnalyzer
     = Some [SemanticError (''Undefined variable '' @ quoted ''x'') py] \<and>
   analyze (Program [LetStatement (Identifier ''x'' px) (Ident (Identifier ''y'' py)) p] pp)
       newSemanticAnalyzer
     = Some [SemanticError (''Undefined variable '' @ quoted ''y'') py]"
proof (intro conjI impI)
  show "analyzeStatement (LetStatement (Identifier x px) e p) a =
     declare_name x ''variable'' px (analyzeExpression e a)"
    by simp
  show "scopes (analyzeExpression e a) = scopes a"
    by (rule analyzeExpression_scopes)
next
  assume "scopes a = scope # outer \<and> \<not> has_entry scope x"
  then show "\<exists>a'. analyzeStatement (LetStatement (Identifier x px) e p) a = Some a' \<and>
         errors a' = errors (analyzeExpression e a) \<and>
         scopes a' = scope(x \<mapsto> (''variable'', fst px, snd px)) # outer"
    by (simp add: declare_name_def analyzeExpression_scopes)
next
  assume h: "scopes a \<noteq> [] \<and> \<not> resolves (scopes a) x"
  then obtain scope outer where sc: "scopes a = scope # outer" by (cases "scopes a") auto
  with h have ne: "\<not> has_entry scope x" by (auto split: if_splits)
  show "\<exists>a'. analyzeStatement (LetStatement (Identifier x px) (Ident (Identifier x py)) p) a
            = Some a' \<and>
         errors a' = errors a @ [SemanticError (''Undefined variable '' @ quoted x) py] \<and>
         resolves (scopes a') x"
    using h sc ne by (simp add: declare_name_def resolve_def has_entry_def)
next
  show "analyze (Program [LetStatement (Identifier ''x'' px) (Ident (Identifier ''x'' py)) p] pp)
       newSemanticAnalyzer
     = Some [SemanticError (''Undefined variable '' @ quoted ''x'') py]"
    by (simp add: analyze_def newSemanticAnalyzer_def declare_name_def resolve_def
        has_entry_def object_prototype_keys_def)
  show "analyze (Program [LetStatement (Identifier ''x'' px) (Ident (Identifier ''y'' py)) p] pp)
       newSemanticAnalyzer
     = Some [SemanticError (''Undefined variable '' @ quoted ''y'') py]"
    by (simp add: analyze_def newSemanticAnalyzer_def declare_name_def resolve_def
        has_entry_def object_prototype_keys_def)
qed

theorem let_binding_not_visible_in_initializer_witness:
  "(\<exists>a'. analyzeStatement
        (LetStatement (Identifier ''r'' (1, 5))
           (BinaryExpression ''+'' (Ident (Identifier ''r'' (1, 9)))
              (NumberLiteral (ParseFloat ''1'') (1, 13)) (1, 11)) (1, 1))
        newSemanticAnalyzer = Some a' \<and>
      errors a' = [SemanticError (''Undefined variable '' @ quoted ''r'') (1, 9)] \<and>
      scopes a' = [Map.empty(''r'' \<mapsto> (''variable'', 1, 5))]) \<and>
   (\<exists>a'. analyzeStatement
        (LetStatement (Identifier ''r'' (1, 5)) (Ident (Identifier ''r'' (1, 9))) (1, 1))
        newSemanticAnalyzer = Some a' \<and>
      errors a' = [SemanticError (''Undefined variable '' @ quoted ''r'') (1, 9)] \<and>
      resolves (scopes a') ''r'')"
  using let_binding_not_visible_in_initializer
    [of "''r''" "(1, 5)"
      "BinaryExpression ''+'' (Ident (Identifier ''r'' (1, 9)))
         (NumberLiteral (ParseFloat ''1'') (1, 13)) (1, 11)"
      "(1, 1)" newSemanticAnalyzer Map.empty "[]" "(1, 9)"]
  by (simp add: newSemanticAnalyzer_def has_entry_def object_prototype_keys_def
      resolve_def Let_def)

text \<open>
  C2. The analyzer walks the statements in order and a function's name enters the scope
  only when its declaration is reached: for the program whose first statement is the call
  \<open>g()\<close> and whose second statement is \<open>fn g() { }\<close>, analysis reports
  \<open>Undefined variable 'g'\<close> at the call; with the two statements in the other order it
  reports nothing.
\<close>

theorem forward_call_reported_undefined:
  "analyze
     (Program
        [ExpressionStatement (CallExpression (Ident (Identifier ''g'' (1, 1))) [] (1, 1)) (1, 1),
         FunctionDeclaration (Identifier ''g'' (2, 5)) [] [] (2, 2)] (1, 1))
     newSemanticAnalyzer
   = Some [SemanticError (''Undefined variable '' @ quoted ''g'') (1, 1)] \<and>
   analyze
     (Program
        [FunctionDeclaration (Identifier ''g'' (1, 4)) [] [] (1, 1),
         ExpressionStatement (CallExpression (Ident (Identifier ''g'' (2, 2))) [] (2, 2)) (2, 2)]
        (1, 1))
     newSemanticAnalyzer
   = Some []"
  by (simp add: analyze_def newSemanticAnalyzer_def declare_name_def resolve_def
      has_entry_def object_prototype_keys_def enterScope_def exitScope_def Let_def)

text \<open>
  C7. The statement emitted for an animation command, after the indentation: a \<open>move\<close>
  updates \<open>animationState.x\<close> for the directions left and right and \<open>animationState.y\<close>
  for up and down, with \<open>-=\<close> for left and up and \<open>+=\<close> for right and down; \<open>rotate\<close>
  emits \<open>animationState.rotation +=\<close>, \<open>scale\<close> emits \<open>animationState.scale *=\<close> and
  \<open>fade\<close> emits \<open>animationState.opacity -=\<close>, each followed by the text of the magnitude
  expression and a semicolon.
\<close>

theorem generateAnimationCommand_updates:
  "output_text (generateAnimationCommand n (Move amount ''left'' p) g) =
     output_text g @ indentation g @ ''animationState.x -= '' @
       expression_text n (indent g) amount @ '';\<newline>'' \<and>
   output_text (generateAnimationCommand n (Move amount ''right'' p) g) =
     output_text g @ indentation g @ ''animationState.x += '' @
       expression_text n (indent g) amount @ '';\<newline>'' \<and>
   output_text (generateAnimationCommand n (Move amount ''up'' p) g) =
     output_text g @ indentation g @ ''animationState.y -= '' @
       expression_text n (indent g) amount @ '';\<newline>'' \<and>
   output_text (generateAnimationCommand n (Move amount ''down'' p) g) =
     output_text g @ indentation g @ ''animationState.y += '' @
       expression_text n (indent g) amount @ '';\<newline>'' \<and>
   output_text (generateAnimationCommand n (Rotate angle p) g) =
     output_text g @ indentation g @ ''animationState.rotation += '' @
       expression_text n (indent g) angle @ '';\<newline>'' \<and>
   output_text (generateAnimationCommand n (Scale factor p) g) =
     output_text g @ indentation g @ ''animationState.scale *= '' @
       expression_text n (indent g) factor @ '';\<newline>'' \<and>
   output_text (generateAnimationCommand n (Fade amount p) g) =
     output_text g @ indentation g @ ''animationState.opacity -= '' @
       expression_text n (indent g) amount @ '';\<newline>''"
  by (simp add: generateExpression_appends Let_def)

text \<open>
  C3, as the code has it. For every repeat statement the generator emits, at the
  current indentation, the header \<open>for (let __i = 0; __i < n; __i++) {\<close> in which \<open>n\<close> is
  the text of the bound expression, then the body once, one level deeper, then the
  closing brace. The bound is written into the loop's test; no statement that stores
  its value is emitted in front of the loop.
\<close>

theorem generateRepeatStatement_text:
  "output_text (generateStatement n (RepeatStatement count stmts p) g) =
     output_text g @ indentation g @ ''for (let __i = 0; __i < '' @
       expression_text n (indent g) count @ ''; __i++) {\<newline>'' @
       statements_text n (Suc (indent g)) stmts @
       indentation g @ ''}\<newline>'' \<and>
   indent (generateStatement n (RepeatStatement count stmts p) g) = indent g"
  by (simp add: generateExpression_appends generateStatement_appends)

text \<open>
  C3, the claim as stated fails: for \<open>repeat f() { g() }\<close> the emitted loop is
  \<open>for (let __i = 0; __i < f(); __i++) {\<close>, with the call \<open>f()\<close> in the test that the loop
  runs before every iteration.
\<close>

theorem repeat_bound_emitted_in_loop_test:
  "statement_text lexeme 1
     (RepeatStatement (CallExpression (Ident (Identifier ''f'' (1, 8))) [] (1, 8))
        [ExpressionStatement (CallExpression (Ident (Identifier ''g'' (1, 14))) [] (1, 14))
           (1, 14)] (1, 1)) =
   ''  for (let __i = 0; __i < f(); __i++) {\<newline>    g();\<newline>  }\<newline>''"
  by (simp add: statement_text_def)

text \<open>
  C5, as the code has it. The comparison level loops: after its first additive operand it
  applies every comparison operator that follows, each to the tree built so far and the
  next additive operand, and stops at the first token that is no comparison operator.
  So when \<open>additive\<close> reads the operand \<open>left\<close>, the tokens behind it are a chain of
  operators and operands of \<open>additive\<close>, and the token behind the chain is no comparison
  operator, then with enough fuel \<open>comparison\<close>, and \<open>expression\<close> with it, returns the
  left-nested tree of all of them and stops at that token.
\<close>

theorem comparison_chains_left_nested:
  assumes "additive n ts = Ok left ts'"
    and "comparison_chain n ts' links"
    and "position_after ts' links = t # behind"
    and "tok_type t \<notin> set comparison_operators"
    and "n + length links + 2 \<le> fuel"
  shows "comparison fuel ts = Ok (left_nested left links) (t # behind) \<and>
     expression (Suc fuel) ts = Ok (left_nested left links) (t # behind)"
proof -
  define k where "k = fuel - (n + length links + 2)"
  with assms(5) have fuel: "fuel = Suc (Suc (n + length links + k))" by simp
  have "additive (Suc (n + length links + k)) ts = Ok left ts'"
    by (rule additive_more_fuel [OF assms(1)]) simp
  moreover note comparison_loop_links [OF assms(2,3,4), of k left]
  ultimately have "comparison fuel ts = Ok (left_nested left links) (t # behind)"
    unfolding fuel by (simp add: andThen_def)
  then show ?thesis by simp
qed

theorem comparison_chains_left_nested_witness:
  "expression 13 (tl (tokenize ''if 1 < b + c < d {'')) =
   Ok (BinaryExpression ''<''
         (BinaryExpression ''<'' (NumberLiteral (ParseFloat ''1'') (1, 4))
            (BinaryExpression ''+'' (Ident (Identifier ''b'' (1, 8)))
               (Ident (Identifier ''c'' (1, 12))) (1, 10))
            (1, 6))
         (Ident (Identifier ''d'' (1, 16))) (1, 14))
      [mkToken LBRACE ''{'' 1 18, mkToken EOF [] 1 19]"
proof -
  let ?lt1 = "mkToken LESS_THAN ''<'' 1 6" and ?lt2 = "mkToken LESS_THAN ''<'' 1 14"
  let ?end = "[mkToken LBRACE ''{'' 1 18, mkToken EOF [] 1 19]"
  let ?d = "mkToken IDENTIFIER ''d'' 1 16 # ?end"
  let ?bc = "mkToken IDENTIFIER ''b'' 1 8 # mkToken PLUS ''+'' 1 10 #
    mkToken IDENTIFIER ''c'' 1 12 # ?lt2 # ?d"
  let ?ts = "mkToken NUMBER ''1'' 1 4 # ?lt1 # ?bc"
  let ?sum = "BinaryExpression ''+'' (Ident (Identifier ''b'' (1, 8)))
    (Ident (Identifier ''c'' (1, 12))) (1, 10)"
  let ?links = "[(?lt1, ?sum, ?lt2 # ?d), (?lt2, Ident (Identifier ''d'' (1, 16)), ?end)]"
  have tokens: "tl (tokenize ''if 1 < b + c < d {'') = ?ts"
    by code_simp
  have left: "additive 8 ?ts = Ok (NumberLiteral (ParseFloat ''1'') (1, 4)) (?lt1 # ?bc)"
    by code_simp
  have chain: "comparison_chain 8 (?lt1 # ?bc) ?links"
    by code_simp
  have pos: "position_after (?lt1 # ?bc) ?links = mkToken LBRACE ''{'' 1 18 # [mkToken EOF [] 1 19]"
    by simp
  have stop: "tok_type (mkToken LBRACE ''{'' 1 18) \<notin> set comparison_operators"
    by (simp add: mkToken_def comparison_operators_def)
  from comparison_chains_left_nested [OF left chain pos stop, of 12]
  show ?thesis
    unfolding tokens by (simp add: mkToken_def token_pos_def)
qed

text \<open>
  C5, the claim as stated fails: the source text \<open>a < b < c\<close> parses to a single
  left-nested chain of two comparison applications.
\<close>

theorem comparison_chain_parsed:
  "expression 20 (tokenize ''a < b < c'') =
   Ok (BinaryExpression ''<''
         (BinaryExpression ''<'' (Ident (Identifier ''a'' (1, 1)))
            (Ident (Identifier ''b'' (1, 5))) (1, 3))
         (Ident (Identifier ''c'' (1, 9))) (1, 7))
      [mkToken EOF [] 1 10]"
  by code_simp

text \<open>
  C10. When the magnitude of a \<open>move\<close> command has been read and the next token is not
  one of the direction keywords, \<open>moveCommand\<close> returns a \<open>Move\<close> node with the
  direction \<open>right\<close> and consumes nothing more; it throws no \<open>ParseError\<close>. For that node
  the generator emits an increment of \<open>animationState.x\<close>.
\<close>

theorem move_without_direction_defaults_to_right:
  assumes "primary n ts = Ok amount (t # ts')"
    and "tok_type t \<notin> {UP, DOWN, LEFT, RIGHT}"
  shows "moveCommand n token ts = Ok (Move amount ''right'' (token_pos token)) (t # ts') \<and>
     output_text
       (generateAnimationCommand numberToString (Move amount ''right'' (token_pos token)) g) =
     output_text g @ indentation g @ ''animationState.x += '' @
       expression_text numberToString (indent g) amount @ '';\<newline>''"
proof
  from assms(2) have "match [UP, DOWN, LEFT, RIGHT] (t # ts') = Ok None (t # ts')"
    by (intro match_Cons_simps(2)) simp
  with assms(1)
  show "moveCommand n token ts = Ok (Move amount ''right'' (token_pos token)) (t # ts')"
    by (simp add: moveCommand_def andThen_def on_match_def return_def del: match.simps)
  show "output_text
       (generateAnimationCommand numberToString (Move amount ''right'' (token_pos token)) g) =
     output_text g @ indentation g @ ''animationState.x += '' @
       expression_text numberToString (indent g) amount @ '';\<newline>''"
    by (simp add: generateExpression_appends Let_def)
qed

theorem move_without_direction_defaults_to_right_witness:
  "moveCommand 1 (mkToken MOVE ''move'' 1 11)
     [mkToken NUMBER ''5'' 1 16, mkToken RBRACE ''}'' 1 18, mkToken EOF [] 1 19] =
   Ok (Move (NumberLiteral (ParseFloat ''5'') (1, 16)) ''right'' (1, 11))
     [mkToken RBRACE ''}'' 1 18, mkToken EOF [] 1 19] \<and>
   output_text
     (generateAnimationCommand lexeme
        (Move (NumberLiteral (ParseFloat ''5'') (1, 16)) ''right'' (1, 11))
        \<lparr>indent = 2, output_text = []\<rparr>) =
   ''    animationState.x += 5;\<newline>''"
proof -
  have p: "primary 1 [mkToken NUMBER ''5'' 1 16, mkToken RBRACE ''}'' 1 18, mkToken EOF [] 1 19]
      = Ok (NumberLiteral (ParseFloat ''5'') (1, 16))
          (mkToken RBRACE ''}'' 1 18 # [mkToken EOF [] 1 19])"
    by code_simp
  have d: "tok_type (mkToken RBRACE ''}'' 1 18) \<notin> {UP, DOWN, LEFT, RIGHT}"
    by (simp add: mkToken_def)
  show ?thesis
    using move_without_direction_defaults_to_right
      [OF p d, of "mkToken MOVE ''move'' 1 11" lexeme "\<lparr>indent = 2, output_text = []\<rparr>"]
    by (simp add: token_pos_def mkToken_def expression_text_def eval_nat_numeral)
qed

text \<open>
  C1. For the source text \<open>let = 5\<close> the parser throws \<open>Expected variable name\<close> inside
  \<open>statement\<close>; \<open>parse\<close> catches it, writes the message to the console, resynchronizes
  and returns a program with no statement and no list of errors. \<open>compile\<close> goes on to
  analysis and generation and returns a success whose output is the code generated for
  the empty program.
\<close>

theorem compile_succeeds_on_syntax_error:
  "parse 10 (tokenize ''let = 5'') =
     Ok (Program [] (1, 1),
         [''Parse error at line 1, column 5: Expected variable name''])
        [mkToken EOF [] 1 8] \<and>
   compile lexeme 10 ''let = 5'' =
     Some (Success (generate lexeme (Program [] (1, 1)) newCodeGenerator))"
  by code_simp

text \<open>
  C4. \<open>tokenize\<close> keeps no newline token, so the test on \<open>previous()\<close> in \<open>synchronize\<close>
  never holds for the tokens that \<open>compile\<close> hands to the parser, and recovery runs on to
  the next statement keyword or to the end of input. For a stray \<open>)\<close> on the first line
  and a well-formed circle statement on the second, the parser logs one error and drops
  the circle statement: the program it returns is empty. Without the first line the same
  statement is parsed.
\<close>

theorem recovery_skips_following_line:
  "NEWLINE \<notin> tok_type ` set (tokenize sourceCode) \<and>
   parse 40 (tokenize '')\<newline>circle at (1, 2) size 3 color #ffffff'') =
     Ok (Program [] (1, 1), [''Parse error at line 2, column 1: Unexpected token: )''])
        [mkToken EOF [] 2 39] \<and>
   parse 40 (tokenize ''circle at (1, 2) size 3 color #ffffff'') =
     Ok (Program
           [ExpressionStatement
              (Circle (NumberLiteral (ParseFloat ''1'') (1, 12))
                 (NumberLiteral (ParseFloat ''2'') (1, 15))
                 (NumberLiteral (ParseFloat ''3'') (1, 23))
                 (ColorLiteral ''#ffffff'' (1, 31)) (1, 1))
              (1, 1)]
           (1, 1), [])
        [mkToken EOF [] 1 38]"
proof (intro conjI)
  from tokenize_shape [of sourceCode] obtain ts e where
    sh: "tokenize sourceCode = ts @ [e]" "tok_type e = EOF"
      "\<forall>t \<in> set ts. tok_type t \<noteq> EOF \<and> tok_type t \<noteq> NEWLINE"
    by blast
  show "NEWLINE \<notin> tok_type ` set (tokenize sourceCode)"
  proof
    assume "NEWLINE \<in> tok_type ` set (tokenize sourceCode)"
    then obtain t where "t \<in> set (ts @ [e])" and "tok_type t = NEWLINE"
      unfolding sh(1) by force
    with sh(2,3) show False by auto
  qed
  show "parse 40 (tokenize '')\<newline>circle at (1, 2) size 3 color #ffffff'') =
     Ok (Program [] (1, 1), [''Parse error at line 2, column 1: Unexpected token: )''])
        [mkToken EOF [] 2 39]"
    by code_simp
  show "parse 40 (tokenize ''circle at (1, 2) size 3 color #ffffff'') =
     Ok (Program
           [ExpressionStatement
              (Circle (NumberLiteral (ParseFloat ''1'') (1, 12))
                 (NumberLiteral (ParseFloat ''2'') (1, 15))
                 (NumberLiteral (ParseFloat ''3'') (1, 23))
                 (ColorLiteral ''#ffffff'' (1, 31)) (1, 1))
              (1, 1)]
           (1, 1), [])
        [mkToken EOF [] 1 38]"
    by code_simp
qed

end
